theory Spec2Isabelle
  imports Complex_Main
begin

section \<open>Key codes and event constants\<close>

text \<open>
  The source reads its key codes from \<^verbatim>\<open>evdev.ecodes\<close>, a library outside the
  repository. The constants it uses by name carry the values of the kernel header
  \<^verbatim>\<open>linux/input-event-codes.h\<close>, which \<^verbatim>\<open>evdev.ecodes\<close> re-exports.
\<close>

definition EV_KEY :: int where "EV_KEY = 1"

definition KEY_LEFTCTRL :: int where "KEY_LEFTCTRL = 29"
definition KEY_RIGHTCTRL :: int where "KEY_RIGHTCTRL = 97"
definition KEY_LEFTALT :: int where "KEY_LEFTALT = 56"
definition KEY_RIGHTALT :: int where "KEY_RIGHTALT = 100"
definition KEY_LEFTSHIFT :: int where "KEY_LEFTSHIFT = 42"
definition KEY_RIGHTSHIFT :: int where "KEY_RIGHTSHIFT = 54"
definition KEY_LEFTMETA :: int where "KEY_LEFTMETA = 125"
definition KEY_RIGHTMETA :: int where "KEY_RIGHTMETA = 126"
definition KEY_D :: int where "KEY_D = 32"
definition KEY_F12 :: int where "KEY_F12 = 88"

text \<open>\<^verbatim>\<open>evdev.events.KeyEvent\<close>: \<^verbatim>\<open>key_up = 0\<close>, \<^verbatim>\<open>key_down = 1\<close>, \<^verbatim>\<open>key_hold = 2\<close>;
  \<^verbatim>\<open>categorize(event).keystate\<close> is \<^verbatim>\<open>event.value\<close>.\<close>

definition key_up :: int where "key_up = 0"
definition key_down :: int where "key_down = 1"

text \<open>\<^verbatim>\<open>GlobalShortcuts.MODIFIER_KEYS\<close>\<close>

definition MODIFIER_KEYS :: "int set" where
  "MODIFIER_KEYS =
     {KEY_LEFTCTRL, KEY_RIGHTCTRL,
      KEY_LEFTALT, KEY_RIGHTALT,
      KEY_LEFTSHIFT, KEY_RIGHTSHIFT,
      KEY_LEFTMETA, KEY_RIGHTMETA}"

section \<open>Data model\<close>

text \<open>
  \<^verbatim>\<open>class Shortcut(NamedTuple)\<close>. Callbacks are opaque handles; \<open>None\<close> is a callback that
  is absent (falsy), which \<^verbatim>\<open>_trigger_callback\<close> and \<^verbatim>\<open>_trigger_release_callback\<close> test.
  The field \<^verbatim>\<open>id\<close> is named \<open>shortcut_id\<close> here.
\<close>

record shortcut =
  shortcut_id :: string
  target_keys :: "int set"
  callback :: "nat option"
  release_callback :: "nat option"

text \<open>
  An input device as the engine sees it: \<open>ev_key_caps\<close> is
  \<^verbatim>\<open>capabilities()[ecodes.EV_KEY]\<close>, or \<open>None\<close> when \<^verbatim>\<open>EV_KEY\<close> is not among the capabilities;
  \<open>grab_ok\<close> tells whether \<^verbatim>\<open>grab()\<close> succeeds or raises \<^verbatim>\<open>OSError\<close>.
\<close>

record device =
  path :: string
  dev_name :: string
  fd :: int
  ev_key_caps :: "int list option"
  grab_ok :: bool

text \<open>An \<^verbatim>\<open>evdev.InputEvent\<close>: type, code, value.\<close>

record input_event =
  ev_type :: int
  ev_code :: int
  ev_value :: int

text \<open>
  The fields of \<^verbatim>\<open>GlobalShortcuts\<close>. \<open>uinput\<close> tells whether the virtual keyboard
  exists (\<^verbatim>\<open>self.uinput\<close> is not \<^verbatim>\<open>None\<close>). The listener thread and its stop event are
  not part of the sequential model. Timestamps of \<^verbatim>\<open>time.time()\<close> are taken as reals.
\<close>

record engine =
  selected_device_path :: "string option"
  grab_keys :: bool
  devices :: "device list"
  device_fds :: "int \<rightharpoonup> device"
  is_running :: bool
  uinput :: bool
  devices_grabbed :: bool
  pressed_keys :: "int set"
  last_trigger_times :: "string \<rightharpoonup> real"
  last_release_times :: "string \<rightharpoonup> real"
  active_shortcuts :: "string set"
  suppressed_keys :: "int set"
  shortcuts :: "shortcut list"
  all_required_keys :: "int set"

text \<open>\<^verbatim>\<open>self.debounce_time = 0.1\<close>, assigned once in \<^verbatim>\<open>__init__\<close> and never again.\<close>

definition debounce_time :: real where "debounce_time = 0.1"

text \<open>\<^verbatim>\<open>GlobalShortcuts.__init__\<close>\<close>

definition init :: "string option \<Rightarrow> bool \<Rightarrow> engine" where
  "init device_path grab =
     \<lparr> selected_device_path = device_path,
       grab_keys = grab,
       devices = [],
       device_fds = Map.empty,
       is_running = False,
       uinput = False,
       devices_grabbed = False,
       pressed_keys = {},
       last_trigger_times = Map.empty,
       last_release_times = Map.empty,
       active_shortcuts = {},
       suppressed_keys = {},
       shortcuts = [],
       all_required_keys = {} \<rparr>"

text \<open>
  What the engine does to the outside: a press or release callback dispatched on its own
  thread (named by the shortcut id), and the writes to the virtual keyboard.
\<close>

datatype effect =
    PressCallback string
  | ReleaseCallback string
  | Write int int int
  | Syn

section \<open>The matching engine\<close>

text \<open>\<^verbatim>\<open>_trigger_callback\<close> and \<^verbatim>\<open>_trigger_release_callback\<close>\<close>

definition trigger_callback :: "shortcut \<Rightarrow> effect list" where
  "trigger_callback sc =
     (case callback sc of Some cb \<Rightarrow> [PressCallback (shortcut_id sc)] | None \<Rightarrow> [])"

definition trigger_release_callback :: "shortcut \<Rightarrow> effect list" where
  "trigger_release_callback sc =
     (case release_callback sc of Some cb \<Rightarrow> [ReleaseCallback (shortcut_id sc)] | None \<Rightarrow> [])"

text \<open>The match test of \<^verbatim>\<open>_check_all_shortcut_combinations\<close> (the value of \<^verbatim>\<open>is_match\<close>).\<close>

definition is_match :: "shortcut \<Rightarrow> int set \<Rightarrow> bool" where
  "is_match sc pressed =
     (if \<not> target_keys sc \<subseteq> pressed then False
      else (let extra_keys = pressed - target_keys sc;
                extra_modifiers = extra_keys \<inter> MODIFIER_KEYS
            in extra_modifiers = {}))"

text \<open>The body of the loop of \<^verbatim>\<open>_check_all_shortcut_combinations\<close> for one shortcut.\<close>

definition check_shortcut :: "real \<Rightarrow> shortcut \<Rightarrow> engine \<times> effect list \<Rightarrow> engine \<times> effect list" where
  "check_shortcut current_time sc acc =
     (let s = fst acc; fx = snd acc in
      if is_match sc (pressed_keys s) then
        (let last_trigger = (case last_trigger_times s (shortcut_id sc) of None \<Rightarrow> 0 | Some t \<Rightarrow> t)
         in if shortcut_id sc \<notin> active_shortcuts s \<and> current_time - last_trigger > debounce_time
            then (s\<lparr> last_trigger_times := (last_trigger_times s)(shortcut_id sc \<mapsto> current_time),
                     active_shortcuts := insert (shortcut_id sc) (active_shortcuts s) \<rparr>,
                  fx @ trigger_callback sc)
            else (s, fx))
      else
        (if shortcut_id sc \<in> active_shortcuts s
         then (s\<lparr> active_shortcuts := active_shortcuts s - {shortcut_id sc} \<rparr>, fx)
         else (s, fx)))"

fun check_shortcuts :: "real \<Rightarrow> shortcut list \<Rightarrow> engine \<times> effect list \<Rightarrow> engine \<times> effect list" where
  "check_shortcuts current_time [] acc = acc"
| "check_shortcuts current_time (sc # scs) acc =
     check_shortcuts current_time scs (check_shortcut current_time sc acc)"

definition check_all_shortcut_combinations :: "real \<Rightarrow> engine \<Rightarrow> engine \<times> effect list" where
  "check_all_shortcut_combinations current_time s =
     check_shortcuts current_time (shortcuts s) (s, [])"

text \<open>The body of the loop of \<^verbatim>\<open>_check_all_combinations_release\<close> for one shortcut.\<close>

definition check_release :: "real \<Rightarrow> (string \<rightharpoonup> bool) \<Rightarrow> shortcut \<Rightarrow> engine \<times> effect list \<Rightarrow> engine \<times> effect list" where
  "check_release current_time was_active_map sc acc =
     (let s = fst acc; fx = snd acc;
          was_active = (case was_active_map (shortcut_id sc) of None \<Rightarrow> False | Some b \<Rightarrow> b)
      in if was_active then
           (let still_matches = target_keys sc \<subseteq> pressed_keys s
            in if \<not> still_matches then
                 (let last_release = (case last_release_times s (shortcut_id sc) of None \<Rightarrow> 0 | Some t \<Rightarrow> t)
                  in if current_time - last_release > debounce_time
                     then (s\<lparr> last_release_times := (last_release_times s)(shortcut_id sc \<mapsto> current_time) \<rparr>,
                           fx @ trigger_release_callback sc)
                     else (s, fx))
               else (s, fx))
         else (s, fx))"

fun check_releases :: "real \<Rightarrow> (string \<rightharpoonup> bool) \<Rightarrow> shortcut list \<Rightarrow> engine \<times> effect list \<Rightarrow> engine \<times> effect list" where
  "check_releases current_time was_active_map [] acc = acc"
| "check_releases current_time was_active_map (sc # scs) acc =
     check_releases current_time was_active_map scs (check_release current_time was_active_map sc acc)"

definition check_all_combinations_release :: "real \<Rightarrow> (string \<rightharpoonup> bool) \<Rightarrow> engine \<Rightarrow> engine \<times> effect list" where
  "check_all_combinations_release current_time was_active_map s =
     check_releases current_time was_active_map (shortcuts s) (s, [])"

text \<open>
  The first loop of the key-down branch of \<^verbatim>\<open>_process_event\<close>: the accumulator is the
  engine (for \<^verbatim>\<open>self.suppressed_keys\<close>) and the local \<^verbatim>\<open>should_suppress\<close>.
\<close>

definition suppress_for :: "int \<Rightarrow> shortcut \<Rightarrow> engine \<times> bool \<Rightarrow> engine \<times> bool" where
  "suppress_for code sc acc =
     (let s = fst acc; should_suppress = snd acc in
      if code \<in> target_keys sc \<and> target_keys sc \<subseteq> pressed_keys s then
        (let extra_keys = pressed_keys s - target_keys sc;
             extra_modifiers = extra_keys \<inter> MODIFIER_KEYS
         in if extra_modifiers = {} then
              (if code \<notin> MODIFIER_KEYS
               then (s\<lparr> suppressed_keys := insert code (suppressed_keys s) \<rparr>, True)
               else (s, should_suppress))
            else (s, should_suppress))
      else (s, should_suppress))"

fun suppress_loop :: "int \<Rightarrow> shortcut list \<Rightarrow> engine \<times> bool \<Rightarrow> engine \<times> bool" where
  "suppress_loop code [] acc = acc"
| "suppress_loop code (sc # scs) acc = suppress_loop code scs (suppress_for code sc acc)"

text \<open>The dictionary \<^verbatim>\<open>was_active_map\<close> built at the start of the key-up branch.\<close>

definition make_was_active_map :: "engine \<Rightarrow> (string \<rightharpoonup> bool)" where
  "make_was_active_map s =
     map_of (map (\<lambda>sid. (sid, sid \<in> active_shortcuts s)) (map shortcut_id (shortcuts s)))"

text \<open>
  The \<^verbatim>\<open>EV_KEY\<close> branch of \<^verbatim>\<open>_process_event\<close> up to the re-emission: the new engine, the
  local \<^verbatim>\<open>should_suppress\<close> and the callbacks dispatched. The events modelled are those that
  \<^verbatim>\<open>categorize\<close> of the evdev library accepts: a key code it knows and a value 0, 1 or 2.
  For any other event \<^verbatim>\<open>categorize\<close> or the read of \<^verbatim>\<open>keystate\<close> raises before a field is
  assigned; the last case stands for a value outside 0, 1, 2 and assigns nothing either.
\<close>

definition process_key_event :: "real \<Rightarrow> input_event \<Rightarrow> engine \<Rightarrow> engine \<times> bool \<times> effect list" where
  "process_key_event current_time event s =
     (if ev_value event = key_down then
        (let s1 = s\<lparr> pressed_keys := insert (ev_code event) (pressed_keys s) \<rparr>;
             r = suppress_loop (ev_code event) (shortcuts s1) (s1, False);
             c = check_all_shortcut_combinations current_time (fst r)
         in (fst c, snd r, snd c))
      else if ev_value event = key_up then
        (let was_active_map = make_was_active_map s;
             s1 = s\<lparr> pressed_keys := pressed_keys s - {ev_code event} \<rparr>;
             r = (if ev_code event \<in> suppressed_keys s1
                  then (s1\<lparr> suppressed_keys := suppressed_keys s1 - {ev_code event} \<rparr>,
                        ev_code event \<notin> MODIFIER_KEYS)
                  else (s1, False));
             c = check_all_combinations_release current_time was_active_map (fst r)
         in (fst c, snd r, snd c))
      else if ev_value event = 2 then
        (s, ev_code event \<in> suppressed_keys s, [])
      else (s, False, []))"

text \<open>
  \<^verbatim>\<open>_process_event\<close>. A write to the virtual keyboard that raises is swallowed by the
  source; the effect list records the writes attempted.
\<close>

definition process_event :: "real \<Rightarrow> input_event \<Rightarrow> engine \<Rightarrow> engine \<times> effect list" where
  "process_event current_time event s =
     (if ev_type event = EV_KEY then
        (let r = process_key_event current_time event s;
             s' = fst r; should_suppress = fst (snd r); fx = snd (snd r)
         in (s', fx @ (if uinput s' \<and> devices_grabbed s' \<and> \<not> should_suppress
                       then [Write EV_KEY (ev_code event) (ev_value event), Syn]
                       else [])))
      else if uinput s \<and> devices_grabbed s then
        (s, [Write (ev_type event) (ev_code event) (ev_value event)])
      else (s, []))"

section \<open>Lifecycle\<close>

text \<open>\<^verbatim>\<open>_cleanup_key_grabbing\<close>: ungrabbing is best effort, the flags are reset.\<close>

definition cleanup_key_grabbing :: "engine \<Rightarrow> engine" where
  "cleanup_key_grabbing s =
     (let s1 = (if devices_grabbed s then s\<lparr> devices_grabbed := False \<rparr> else s)
      in if uinput s1 then s1\<lparr> uinput := False \<rparr> else s1)"

text \<open>\<^verbatim>\<open>_remove_device\<close>\<close>

definition remove_device :: "device \<Rightarrow> engine \<Rightarrow> engine" where
  "remove_device dev s =
     (let s1 = (if dev \<in> set (devices s) then s\<lparr> devices := remove1 dev (devices s) \<rparr> else s)
      in if fd dev \<in> dom (device_fds s1)
         then s1\<lparr> device_fds := (device_fds s1)(fd dev := None) \<rparr>
         else s1)"

fun remove_devices :: "device list \<Rightarrow> engine \<Rightarrow> engine" where
  "remove_devices [] s = s"
| "remove_devices (dev # devs) s = remove_devices devs (remove_device dev s)"

text \<open>\<^verbatim>\<open>stop\<close>: the loop runs over the copy \<^verbatim>\<open>self.devices[:]\<close>.\<close>

definition stop :: "engine \<Rightarrow> engine" where
  "stop s =
     (if \<not> is_running s then s
      else (let s1 = cleanup_key_grabbing s;
                s2 = remove_devices (devices s1) s1
            in s2\<lparr> is_running := False, pressed_keys := {}, suppressed_keys := {} \<rparr>))"

text \<open>A step of the engine's life: an event processed at a time, or a call of \<^verbatim>\<open>stop\<close>.\<close>

datatype step = Event real input_event | Stop

fun do_step :: "step \<Rightarrow> engine \<Rightarrow> engine" where
  "do_step (Event t e) s = fst (process_event t e s)"
| "do_step Stop s = stop s"

fun run :: "step list \<Rightarrow> engine \<Rightarrow> engine" where
  "run [] s = s"
| "run (st # sts) s = run sts (do_step st s)"

section \<open>Key vocabulary and combination parsing\<close>

text \<open>
  Strings are lists of \<open>char\<close>; the string methods of Python are modelled on ASCII text,
  which is what a combination string of the configuration holds.
\<close>

text \<open>\<^verbatim>\<open>str.lower\<close> and \<^verbatim>\<open>str.upper\<close> on ASCII letters.\<close>

definition lower_char :: "char \<Rightarrow> char" where
  "lower_char c =
     (case map_of (zip ''ABCDEFGHIJKLMNOPQRSTUVWXYZ'' ''abcdefghijklmnopqrstuvwxyz'') c of
        Some d \<Rightarrow> d | None \<Rightarrow> c)"

definition upper_char :: "char \<Rightarrow> char" where
  "upper_char c =
     (case map_of (zip ''abcdefghijklmnopqrstuvwxyz'' ''ABCDEFGHIJKLMNOPQRSTUVWXYZ'') c of
        Some d \<Rightarrow> d | None \<Rightarrow> c)"

definition lower :: "string \<Rightarrow> string" where
  "lower s = map lower_char s"

definition upper :: "string \<Rightarrow> string" where
  "upper s = map upper_char s"

text \<open>\<^verbatim>\<open>str.strip()\<close>: the ASCII characters for which \<^verbatim>\<open>str.isspace\<close> holds are
  tab, line feed, vertical tab, form feed, carriage return, the separators
  \<^verbatim>\<open>0x1c\<close> to \<^verbatim>\<open>0x1f\<close> and the space.\<close>

definition is_space :: "char \<Rightarrow> bool" where
  "is_space c =
     (c \<in> set [CHR 0x09, CHR 0x0A, CHR 0x0B, CHR 0x0C, CHR 0x0D,
               CHR 0x1C, CHR 0x1D, CHR 0x1E, CHR 0x1F, CHR 0x20])"

definition strip :: "string \<Rightarrow> string" where
  "strip s = rev (dropWhile is_space (rev (dropWhile is_space s)))"

text \<open>\<^verbatim>\<open>s.replace(c, '')\<close> for a single character \<open>c\<close>.\<close>

definition remove_char :: "char \<Rightarrow> string \<Rightarrow> string" where
  "remove_char c s = filter (\<lambda>x. x \<noteq> c) s"

text \<open>\<^verbatim>\<open>s.split(sep)\<close> for a single character \<open>sep\<close>: never the empty list.\<close>

fun split_on :: "char \<Rightarrow> string \<Rightarrow> string list" where
  "split_on sep [] = [[]]"
| "split_on sep (c # cs) =
     (if c = sep then [] # split_on sep cs
      else (case split_on sep cs of
              p # ps \<Rightarrow> (c # p) # ps
            | [] \<Rightarrow> [[c]]))"

definition startswith :: "string \<Rightarrow> string \<Rightarrow> bool" where
  "startswith s prefix = (take (length prefix) s = prefix)"

text \<open>The dictionary \<^verbatim>\<open>KEY_ALIASES\<close>, in the order of the source (no key occurs twice).\<close>

definition KEY_ALIASES :: "(string \<times> string) list" where
  "KEY_ALIASES =
     [
      (''ctrl'', ''KEY_LEFTCTRL''), (''control'', ''KEY_LEFTCTRL''), (''lctrl'', ''KEY_LEFTCTRL''),
      (''alt'', ''KEY_LEFTALT''), (''lalt'', ''KEY_LEFTALT''), (''shift'', ''KEY_LEFTSHIFT''),
      (''lshift'', ''KEY_LEFTSHIFT''), (''super'', ''KEY_LEFTMETA''), (''meta'', ''KEY_LEFTMETA''),
      (''lsuper'', ''KEY_LEFTMETA''), (''win'', ''KEY_LEFTMETA''), (''windows'', ''KEY_LEFTMETA''),
      (''cmd'', ''KEY_LEFTMETA''), (''rctrl'', ''KEY_RIGHTCTRL''), (''rightctrl'', ''KEY_RIGHTCTRL''),
      (''ralt'', ''KEY_RIGHTALT''), (''rightalt'', ''KEY_RIGHTALT''), (''rshift'', ''KEY_RIGHTSHIFT''),
      (''rightshift'', ''KEY_RIGHTSHIFT''), (''rsuper'', ''KEY_RIGHTMETA''), (''rightsuper'', ''KEY_RIGHTMETA''),
      (''rmeta'', ''KEY_RIGHTMETA''), (''enter'', ''KEY_ENTER''), (''return'', ''KEY_ENTER''),
      (''backspace'', ''KEY_BACKSPACE''), (''bksp'', ''KEY_BACKSPACE''), (''tab'', ''KEY_TAB''),
      (''caps'', ''KEY_CAPSLOCK''), (''capslock'', ''KEY_CAPSLOCK''), (''esc'', ''KEY_ESC''),
      (''escape'', ''KEY_ESC''), (''space'', ''KEY_SPACE''), (''spacebar'', ''KEY_SPACE''),
      (''delete'', ''KEY_DELETE''), (''del'', ''KEY_DELETE''), (''insert'', ''KEY_INSERT''),
      (''ins'', ''KEY_INSERT''), (''home'', ''KEY_HOME''), (''end'', ''KEY_END''),
      (''pageup'', ''KEY_PAGEUP''), (''pgup'', ''KEY_PAGEUP''), (''pagedown'', ''KEY_PAGEDOWN''),
      (''pgdn'', ''KEY_PAGEDOWN''), (''pgdown'', ''KEY_PAGEDOWN''), (''up'', ''KEY_UP''),
      (''uparrow'', ''KEY_UP''), (''down'', ''KEY_DOWN''), (''downarrow'', ''KEY_DOWN''),
      (''left'', ''KEY_LEFT''), (''leftarrow'', ''KEY_LEFT''), (''right'', ''KEY_RIGHT''),
      (''rightarrow'', ''KEY_RIGHT''), (''numlock'', ''KEY_NUMLOCK''), (''scrolllock'', ''KEY_SCROLLLOCK''),
      (''scroll'', ''KEY_SCROLLLOCK''), (''f1'', ''KEY_F1''), (''f2'', ''KEY_F2''),
      (''f3'', ''KEY_F3''), (''f4'', ''KEY_F4''), (''f5'', ''KEY_F5''),
      (''f6'', ''KEY_F6''), (''f7'', ''KEY_F7''), (''f8'', ''KEY_F8''),
      (''f9'', ''KEY_F9''), (''f10'', ''KEY_F10''), (''f11'', ''KEY_F11''),
      (''f12'', ''KEY_F12''), (''f13'', ''KEY_F13''), (''f14'', ''KEY_F14''),
      (''f15'', ''KEY_F15''), (''f16'', ''KEY_F16''), (''f17'', ''KEY_F17''),
      (''f18'', ''KEY_F18''), (''f19'', ''KEY_F19''), (''f20'', ''KEY_F20''),
      (''f21'', ''KEY_F21''), (''f22'', ''KEY_F22''), (''f23'', ''KEY_F23''),
      (''f24'', ''KEY_F24''), (''kp0'', ''KEY_KP0''), (''kp1'', ''KEY_KP1''),
      (''kp2'', ''KEY_KP2''), (''kp3'', ''KEY_KP3''), (''kp4'', ''KEY_KP4''),
      (''kp5'', ''KEY_KP5''), (''kp6'', ''KEY_KP6''), (''kp7'', ''KEY_KP7''),
      (''kp8'', ''KEY_KP8''), (''kp9'', ''KEY_KP9''), (''kpenter'', ''KEY_KPENTER''),
      (''kpplus'', ''KEY_KPPLUS''), (''kpminus'', ''KEY_KPMINUS''), (''kpmultiply'', ''KEY_KPASTERISK''),
      (''kpdivide'', ''KEY_KPSLASH''), (''kpdot'', ''KEY_KPDOT''), (''kpperiod'', ''KEY_KPDOT''),
      (''mute'', ''KEY_MUTE''), (''volumemute'', ''KEY_MUTE''), (''volumeup'', ''KEY_VOLUMEUP''),
      (''volup'', ''KEY_VOLUMEUP''), (''volumedown'', ''KEY_VOLUMEDOWN''), (''voldown'', ''KEY_VOLUMEDOWN''),
      (''play'', ''KEY_PLAYPAUSE''), (''playpause'', ''KEY_PLAYPAUSE''), (''stop'', ''KEY_STOPCD''),
      (''mediastop'', ''KEY_STOPCD''), (''nextsong'', ''KEY_NEXTSONG''), (''next'', ''KEY_NEXTSONG''),
      (''previoussong'', ''KEY_PREVIOUSSONG''), (''prev'', ''KEY_PREVIOUSSONG''), (''browser'', ''KEY_WWW''),
      (''browserback'', ''KEY_BACK''), (''browserforward'', ''KEY_FORWARD''), (''refresh'', ''KEY_REFRESH''),
      (''browsersearch'', ''KEY_SEARCH''), (''favorites'', ''KEY_BOOKMARKS''), (''menu'', ''KEY_MENU''),
      (''print'', ''KEY_PRINT''), (''printscreen'', ''KEY_SYSRQ''), (''prtsc'', ''KEY_SYSRQ''),
      (''pause'', ''KEY_PAUSE''), (''break'', ''KEY_PAUSE''), (''sysrq'', ''KEY_SYSRQ''),
      ([CHR ''.''], ''KEY_DOT''), (''dot'', ''KEY_DOT''), (''period'', ''KEY_DOT''),
      ([CHR '',''], ''KEY_COMMA''), (''comma'', ''KEY_COMMA''), ([CHR ''/''], ''KEY_SLASH''),
      (''slash'', ''KEY_SLASH''), ([CHR 0x5C], ''KEY_BACKSLASH''), (''backslash'', ''KEY_BACKSLASH''),
      ([CHR '';''], ''KEY_SEMICOLON''), (''semicolon'', ''KEY_SEMICOLON''), ([CHR 0x27], ''KEY_APOSTROPHE''),
      (''apostrophe'', ''KEY_APOSTROPHE''), (''quote'', ''KEY_APOSTROPHE''), ([CHR ''[''], ''KEY_LEFTBRACE''),
      (''leftbrace'', ''KEY_LEFTBRACE''), (''lbrace'', ''KEY_LEFTBRACE''), ([CHR '']''], ''KEY_RIGHTBRACE''),
      (''rightbrace'', ''KEY_RIGHTBRACE''), (''rbrace'', ''KEY_RIGHTBRACE''), ([CHR ''-''], ''KEY_MINUS''),
      (''minus'', ''KEY_MINUS''), (''dash'', ''KEY_MINUS''), ([CHR ''=''], ''KEY_EQUAL''),
      (''equal'', ''KEY_EQUAL''), (''equals'', ''KEY_EQUAL''), ([CHR 0x60], ''KEY_GRAVE''),
      (''grave'', ''KEY_GRAVE''), (''backtick'', ''KEY_GRAVE''), (''0'', ''KEY_0''),
      (''1'', ''KEY_1''), (''2'', ''KEY_2''), (''3'', ''KEY_3''),
      (''4'', ''KEY_4''), (''5'', ''KEY_5''), (''6'', ''KEY_6''),
      (''7'', ''KEY_7''), (''8'', ''KEY_8''), (''9'', ''KEY_9''),
      (''a'', ''KEY_A''), (''b'', ''KEY_B''), (''c'', ''KEY_C''),
      (''d'', ''KEY_D''), (''e'', ''KEY_E''), (''f'', ''KEY_F''),
      (''g'', ''KEY_G''), (''h'', ''KEY_H''), (''i'', ''KEY_I''),
      (''j'', ''KEY_J''), (''k'', ''KEY_K''), (''l'', ''KEY_L''),
      (''m'', ''KEY_M''), (''n'', ''KEY_N''), (''o'', ''KEY_O''),
      (''p'', ''KEY_P''), (''q'', ''KEY_Q''), (''r'', ''KEY_R''),
      (''s'', ''KEY_S''), (''t'', ''KEY_T''), (''u'', ''KEY_U''),
      (''v'', ''KEY_V''), (''w'', ''KEY_W''), (''x'', ''KEY_X''),
      (''y'', ''KEY_Y''), (''z'', ''KEY_Z'')
     ]"

text \<open>
  \<^verbatim>\<open>_string_to_keycode\<close>. The table \<^verbatim>\<open>ecodes.ecodes\<close> of the evdev library (key name to
  code) is the parameter \<open>ecodes\<close>.
\<close>

definition string_to_keycode :: "(string \<rightharpoonup> int) \<Rightarrow> string \<Rightarrow> int option" where
  "string_to_keycode ecodes original =
     (let key_string = strip (lower original);
          key_name =
            (case map_of KEY_ALIASES key_string of
               Some n \<Rightarrow> n
             | None \<Rightarrow>
                 (let key_name = upper key_string
                  in if \<not> startswith key_name ''KEY_'' then ''KEY_'' @ key_name else key_name))
      in ecodes key_name)"

text \<open>The loop of \<^verbatim>\<open>_parse_key_combination\<close>: the first part that resolves to no key
  ends it with \<^verbatim>\<open>None\<close>.\<close>

fun parse_parts :: "(string \<rightharpoonup> int) \<Rightarrow> string list \<Rightarrow> int set \<Rightarrow> int set option" where
  "parse_parts ecodes [] keys = Some keys"
| "parse_parts ecodes (part # parts) keys =
     (case string_to_keycode ecodes (strip part) of
        Some keycode \<Rightarrow> parse_parts ecodes parts (insert keycode keys)
      | None \<Rightarrow> None)"

text \<open>The parts a combination string is split into, before each is stripped.\<close>

definition combination_parts :: "string \<Rightarrow> string list" where
  "combination_parts key_string =
     (let key_lower = strip (lower key_string);
          key_lower = remove_char (CHR ''>'') (remove_char (CHR ''<'') key_lower)
      in split_on (CHR ''+'') key_lower)"

text \<open>\<^verbatim>\<open>_parse_key_combination\<close>\<close>

definition parse_key_combination :: "(string \<rightharpoonup> int) \<Rightarrow> string \<Rightarrow> int set option" where
  "parse_key_combination ecodes key_string =
     parse_parts ecodes (combination_parts key_string) {}"

text \<open>\<^verbatim>\<open>_string_to_keycode_standalone\<close>\<close>

definition string_to_keycode_standalone :: "(string \<rightharpoonup> int) \<Rightarrow> string \<Rightarrow> int option" where
  "string_to_keycode_standalone ecodes key_string0 =
     (let key_string = strip (lower key_string0);
          key_name =
            (case map_of KEY_ALIASES key_string of
               Some n \<Rightarrow> n
             | None \<Rightarrow>
                 (let key_name = upper key_string
                  in if \<not> startswith key_name ''KEY_'' then ''KEY_'' @ key_name else key_name))
      in ecodes key_name)"

text \<open>The loop of \<^verbatim>\<open>_parse_key_combination_standalone\<close>: a part that resolves to no key
  is passed over.\<close>

fun parse_parts_standalone :: "(string \<rightharpoonup> int) \<Rightarrow> string list \<Rightarrow> int set \<Rightarrow> int set" where
  "parse_parts_standalone ecodes [] keys = keys"
| "parse_parts_standalone ecodes (part # parts) keys =
     (case string_to_keycode_standalone ecodes (strip part) of
        Some keycode \<Rightarrow> parse_parts_standalone ecodes parts (insert keycode keys)
      | None \<Rightarrow> parse_parts_standalone ecodes parts keys)"

text \<open>\<^verbatim>\<open>_parse_key_combination_standalone\<close>\<close>

definition parse_key_combination_standalone :: "(string \<rightharpoonup> int) \<Rightarrow> string \<Rightarrow> int set" where
  "parse_key_combination_standalone ecodes key_string =
     (let keys = parse_parts_standalone ecodes (combination_parts key_string) {}
      in if keys = {} then insert KEY_F12 keys else keys)"

section \<open>Shortcut registry\<close>

text \<open>The decimal digits of a natural number, as \<^verbatim>\<open>str\<close> gives them in an f-string.\<close>

definition digit_char :: "nat \<Rightarrow> char" where
  "digit_char d = ''0123456789'' ! d"

fun str_nat :: "nat \<Rightarrow> string" where
  "str_nat n = (if n < 10 then [digit_char n] else str_nat (n div 10) @ [digit_char (n mod 10)])"

declare str_nat.simps [simp del]

text \<open>
  \<^verbatim>\<open>add_shortcut\<close>: the id returned (or \<^verbatim>\<open>None\<close>) and the engine afterwards.
  \<^verbatim>\<open>not target_keys\<close> holds for \<^verbatim>\<open>None\<close> and for the empty set.
\<close>

definition add_shortcut ::
  "(string \<rightharpoonup> int) \<Rightarrow> string \<Rightarrow> nat option \<Rightarrow> nat option \<Rightarrow> engine \<Rightarrow> string option \<times> engine" where
  "add_shortcut ecodes key_string cb release_cb s =
     (case parse_key_combination ecodes key_string of
        None \<Rightarrow> (None, s)
      | Some target \<Rightarrow>
          if target = {} then (None, s)
          else
            (let sid = key_string @ ''_'' @ str_nat (length (shortcuts s));
                 sc = \<lparr> shortcut_id = sid, target_keys = target,
                        callback = cb, release_callback = release_cb \<rparr>
             in (Some sid,
                 s\<lparr> shortcuts := shortcuts s @ [sc],
                    all_required_keys := all_required_keys s \<union> target \<rparr>)))"

text \<open>The shape of the ids that \<^verbatim>\<open>add_shortcut\<close> hands out: the shortcut at position \<open>i\<close> of
  the list has an id that ends in an underscore and the decimal digits of \<open>i\<close>.\<close>

definition ids_indexed :: "engine \<Rightarrow> bool" where
  "ids_indexed s =
     (\<forall>i < length (shortcuts s).
        \<exists>key_string. shortcut_id (shortcuts s ! i) = key_string @ ''_'' @ str_nat i)"

text \<open>A series of registrations, each with its combination string and its two callbacks.\<close>

fun register_all :: "(string \<rightharpoonup> int) \<Rightarrow> (string \<times> nat option \<times> nat option) list \<Rightarrow> engine \<Rightarrow> engine" where
  "register_all ecodes [] s = s"
| "register_all ecodes (r # rs) s =
     register_all ecodes rs (snd (add_shortcut ecodes (fst r) (fst (snd r)) (snd (snd r)) s))"

section \<open>Device discovery\<close>

text \<open>Truth value of \<^verbatim>\<open>self.selected_device_path\<close>: \<^verbatim>\<open>None\<close> and the empty string are falsy.\<close>

definition path_given :: "string option \<Rightarrow> bool" where
  "path_given p = (case p of None \<Rightarrow> False | Some x \<Rightarrow> x \<noteq> [])"

text \<open>The loop that looks for the selected device: the last device at the path is kept.\<close>

fun select_device :: "string option \<Rightarrow> device list \<Rightarrow> device option \<Rightarrow> device option" where
  "select_device p [] selected_device = selected_device"
| "select_device p (dev # devs) selected_device =
     select_device p devs (if Some (path dev) = p then Some dev else selected_device)"

text \<open>
  The main loop of \<^verbatim>\<open>_discover_keyboards\<close> over the candidate devices, with its
  \<^verbatim>\<open>continue\<close>, \<^verbatim>\<open>break\<close> and \<^verbatim>\<open>return\<close>.
\<close>

fun probe_devices :: "device list \<Rightarrow> engine \<Rightarrow> engine" where
  "probe_devices [] s = s"
| "probe_devices (dev # devs) s =
     (case ev_key_caps dev of
        None \<Rightarrow> probe_devices devs s
      | Some caps \<Rightarrow>
          (let available_keys = set caps;
               can_emit_any_shortcut =
                 list_ex (\<lambda>sc. target_keys sc \<subseteq> available_keys) (shortcuts s)
           in if \<not> can_emit_any_shortcut \<and> \<not> path_given (selected_device_path s)
              then probe_devices devs s
              else if grab_ok dev then
                (let s1 = s\<lparr> devices := devices s @ [dev],
                             device_fds := (device_fds s)(fd dev \<mapsto> dev) \<rparr>
                 in if path_given (selected_device_path s) then s1
                    else probe_devices devs s1)
              else if path_given (selected_device_path s) then s
              else probe_devices devs s))"

text \<open>
  \<^verbatim>\<open>_discover_keyboards\<close>; \<open>all_devices\<close> are the devices enumerated and opened. A failure
  of the enumeration is caught by the source and leaves \<^verbatim>\<open>self.devices\<close> empty, as the
  empty enumeration does.
\<close>

definition discover_keyboards :: "device list \<Rightarrow> engine \<Rightarrow> engine" where
  "discover_keyboards all_devices s =
     (let s0 = s\<lparr> devices := [], device_fds := Map.empty \<rparr>
      in if shortcuts s0 = [] then s0
         else if path_given (selected_device_path s0) then
           (case select_device (selected_device_path s0) all_devices None of
              None \<Rightarrow> s0
            | Some selected_device \<Rightarrow> probe_devices [selected_device] s0)
         else probe_devices all_devices s0)"

section \<open>Starting the engine\<close>

text \<open>
  \<^verbatim>\<open>_setup_key_grabbing\<close>: \<open>uinput_ok\<close> tells whether creating the virtual keyboard
  succeeds; when it raises, the handler cleans up. A device that cannot be grabbed is
  logged and the loop goes on.
\<close>

definition setup_key_grabbing :: "bool \<Rightarrow> engine \<Rightarrow> engine" where
  "setup_key_grabbing uinput_ok s =
     (if uinput_ok then s\<lparr> uinput := True, devices_grabbed := True \<rparr>
      else cleanup_key_grabbing s)"

text \<open>\<^verbatim>\<open>start\<close>: the value returned and the engine afterwards.\<close>

definition start :: "device list \<Rightarrow> bool \<Rightarrow> engine \<Rightarrow> bool \<times> engine" where
  "start all_devices uinput_ok s =
     (if is_running s then (True, s)
      else (let s1 = discover_keyboards all_devices s
            in if devices s1 = [] then (False, s1)
               else (let s2 = (if grab_keys s1 then setup_key_grabbing uinput_ok s1 else s1)
                     in (True, s2\<lparr> is_running := True \<rparr>))))"

section \<open>Example data\<close>

text \<open>An excerpt of \<^verbatim>\<open>ecodes.ecodes\<close>, enough for the combinations of the examples.\<close>

definition ecodes_excerpt :: "string \<rightharpoonup> int" where
  "ecodes_excerpt =
     map_of [(''KEY_LEFTCTRL'', 29), (''KEY_LEFTSHIFT'', 42), (''KEY_LEFTALT'', 56),
             (''KEY_D'', 32), (''KEY_F12'', 88)]"

text \<open>A keyboard with the keys of the excerpt, and a lid sensor without key capability.\<close>

definition example_keyboard :: device where
  "example_keyboard =
     \<lparr> path = ''/dev/input/event3'', dev_name = ''AT keyboard'', fd = 7,
       ev_key_caps = Some [29, 42, 56, 32, 88], grab_ok = True \<rparr>"

definition example_sensor :: device where
  "example_sensor =
     \<lparr> path = ''/dev/input/event9'', dev_name = ''Lid sensor'', fd = 8,
       ev_key_caps = None, grab_ok = True \<rparr>"

text \<open>Key events: press, release and repeat of a key code.\<close>

definition press :: "int \<Rightarrow> input_event" where
  "press c = \<lparr> ev_type = EV_KEY, ev_code = c, ev_value = key_down \<rparr>"

definition release :: "int \<Rightarrow> input_event" where
  "release c = \<lparr> ev_type = EV_KEY, ev_code = c, ev_value = key_up \<rparr>"

definition repeat :: "int \<Rightarrow> input_event" where
  "repeat c = \<lparr> ev_type = EV_KEY, ev_code = c, ev_value = 2 \<rparr>"

text \<open>An engine with the shortcut \<^verbatim>\<open>ctrl+d\<close> registered, and the same engine started on
  the example keyboard.\<close>

definition ctrl_d_engine :: engine where
  "ctrl_d_engine = snd (add_shortcut ecodes_excerpt ''ctrl+d'' (Some 0) (Some 1) (init None True))"

definition ctrl_d_running :: engine where
  "ctrl_d_running = snd (start [example_keyboard] True ctrl_d_engine)"

text \<open>An engine with the single-key shortcut \<^verbatim>\<open>f12\<close>, started on the example keyboard.\<close>

definition f12_engine :: engine where
  "f12_engine = snd (add_shortcut ecodes_excerpt ''f12'' (Some 0) (Some 1) (init None True))"

definition f12_running :: engine where
  "f12_running = snd (start [example_keyboard] True f12_engine)"

text \<open>The running \<^verbatim>\<open>ctrl+d\<close> engine after left ctrl and then d were pressed.\<close>

definition ctrl_d_held :: engine where
  "ctrl_d_held = run [Event 1000 (press 29), Event 1000.2 (press 32)] ctrl_d_running"

text \<open>A macro pad that has the F12 key only.\<close>

definition example_keypad :: device where
  "example_keypad =
     \<lparr> path = ''/dev/input/event5'', dev_name = ''Macro pad'', fd = 9,
       ev_key_caps = Some [88], grab_ok = True \<rparr>"

text \<open>An engine constructed with an explicit device path, with \<^verbatim>\<open>ctrl+d\<close> registered.\<close>

definition selected_engine :: "string \<Rightarrow> engine" where
  "selected_engine p =
     snd (add_shortcut ecodes_excerpt ''ctrl+d'' (Some 0) (Some 1) (init (Some p) True))"

text \<open>Events processed one after the other, each at its time: the engine at the end and
  all effects in order.\<close>

fun run_events :: "(real \<times> input_event) list \<Rightarrow> engine \<Rightarrow> engine \<times> effect list" where
  "run_events [] s = (s, [])"
| "run_events (te # tes) s =
     (let r1 = process_event (fst te) (snd te) s;
          r2 = run_events tes (fst r1)
      in (fst r2, snd r1 @ snd r2))"

text \<open>From there: d and ctrl are released, then ctrl and d are pressed again, all within
  50 ms of the trigger at 1000.2.\<close>

definition ctrl_d_bounced :: engine where
  "ctrl_d_bounced =
     run [Event 1000.21 (release 32), Event 1000.22 (release 29),
          Event 1000.23 (press 29), Event 1000.25 (press 32)] ctrl_d_held"

text \<open>The shortcut that registering \<^verbatim>\<open>ctrl+d\<close> first creates, and the one for \<^verbatim>\<open>f12\<close>.\<close>

definition ctrl_d_shortcut :: shortcut where
  "ctrl_d_shortcut =
     \<lparr> shortcut_id = ''ctrl+d_0'', target_keys = {29, 32},
       callback = Some 0, release_callback = Some 1 \<rparr>"

definition f12_shortcut :: shortcut where
  "f12_shortcut =
     \<lparr> shortcut_id = ''f12_0'', target_keys = {88},
       callback = Some 0, release_callback = Some 1 \<rparr>"

text \<open>The running \<^verbatim>\<open>ctrl+d\<close> engine after left ctrl alone was pressed.\<close>

definition ctrl_held :: engine where
  "ctrl_held = run [Event 1000 (press 29)] ctrl_d_running"

text \<open>F12 pressed, released, and pressed again half a second later.\<close>

definition f12_twice :: "(real \<times> input_event) list" where
  "f12_twice = [(1000, press 88), (1000.05, release 88), (1000.5, press 88)]"

text \<open>Ctrl and d pressed and released, and pressed again: half a second later, and within
  50 ms.\<close>

definition ctrl_d_twice_slow :: "(real \<times> input_event) list" where
  "ctrl_d_twice_slow =
     [(1000, press 29), (1000.01, press 32), (1000.02, release 32), (1000.03, release 29),
      (1000.5, press 29), (1000.51, press 32)]"

definition ctrl_d_twice_fast :: "(real \<times> input_event) list" where
  "ctrl_d_twice_fast =
     [(1000, press 29), (1000.01, press 32), (1000.02, release 32), (1000.03, release 29),
      (1000.04, press 29), (1000.05, press 32)]"

section \<open>Frame lemmas for the loops of the matching engine\<close>

text \<open>Each loop touches only the fields it assigns; stated through the projections.\<close>

lemma suppress_for_frame:
  "fst (suppress_for c sc acc) =
     (fst acc)\<lparr> suppressed_keys := suppressed_keys (fst (suppress_for c sc acc)) \<rparr>"
  by (simp add: suppress_for_def Let_def)

lemma suppress_for_bounds:
  "suppressed_keys (fst acc) \<subseteq> suppressed_keys (fst (suppress_for c sc acc))"
  "suppressed_keys (fst (suppress_for c sc acc)) \<subseteq> insert c (suppressed_keys (fst acc))"
  "c \<in> MODIFIER_KEYS \<Longrightarrow> suppressed_keys (fst (suppress_for c sc acc)) = suppressed_keys (fst acc)"
  by (auto simp add: suppress_for_def Let_def)

lemma suppress_loop_frame:
  "fst (suppress_loop c scs acc) =
     (fst acc)\<lparr> suppressed_keys := suppressed_keys (fst (suppress_loop c scs acc)) \<rparr>"
proof (induction scs arbitrary: acc)
  case Nil
  show ?case by simp
next
  case (Cons sc scs)
  have "fst (suppress_loop c (sc # scs) acc) =
        (fst (suppress_for c sc acc))\<lparr> suppressed_keys := suppressed_keys (fst (suppress_loop c (sc # scs) acc)) \<rparr>"
    using Cons.IH[of "suppress_for c sc acc"] by simp
  also have "\<dots> = (fst acc)\<lparr> suppressed_keys := suppressed_keys (fst (suppress_loop c (sc # scs) acc)) \<rparr>"
    by (subst suppress_for_frame) simp
  finally show ?case .
qed

lemma suppress_loop_bounds:
  "suppressed_keys (fst acc) \<subseteq> suppressed_keys (fst (suppress_loop c scs acc))"
  "suppressed_keys (fst (suppress_loop c scs acc)) \<subseteq> insert c (suppressed_keys (fst acc))"
  "c \<in> MODIFIER_KEYS \<Longrightarrow> suppressed_keys (fst (suppress_loop c scs acc)) = suppressed_keys (fst acc)"
proof (induction scs arbitrary: acc)
  case Nil
  { case 1 show ?case by simp }
  { case 2 show ?case by auto }
  { case 3 show ?case by simp }
next
  case (Cons sc scs)
  { case 1 show ?case
      using Cons.IH(1)[of "suppress_for c sc acc"] suppress_for_bounds(1)[of acc c sc] by auto }
  { case 2 show ?case
      using Cons.IH(2)[of "suppress_for c sc acc"] suppress_for_bounds(2)[of c sc acc] by auto }
  { case 3 then show ?case
      using Cons.IH(3)[of "suppress_for c sc acc"] suppress_for_bounds(3)[of c sc acc] by auto }
qed

lemma check_shortcut_frame:
  "fst (check_shortcut t sc acc) =
     (fst acc)\<lparr> last_trigger_times := last_trigger_times (fst (check_shortcut t sc acc)),
                active_shortcuts := active_shortcuts (fst (check_shortcut t sc acc)) \<rparr>"
  by (simp add: check_shortcut_def Let_def)

lemma check_shortcuts_frame:
  "fst (check_shortcuts t scs acc) =
     (fst acc)\<lparr> last_trigger_times := last_trigger_times (fst (check_shortcuts t scs acc)),
                active_shortcuts := active_shortcuts (fst (check_shortcuts t scs acc)) \<rparr>"
proof (induction scs arbitrary: acc)
  case Nil
  show ?case by simp
next
  case (Cons sc scs)
  show ?case
    using Cons.IH[of "check_shortcut t sc acc"]
    by (subst (asm) check_shortcut_frame) simp
qed

lemma check_release_frame:
  "fst (check_release t m sc acc) =
     (fst acc)\<lparr> last_release_times := last_release_times (fst (check_release t m sc acc)) \<rparr>"
  by (simp add: check_release_def Let_def)

lemma check_releases_frame:
  "fst (check_releases t m scs acc) =
     (fst acc)\<lparr> last_release_times := last_release_times (fst (check_releases t m scs acc)) \<rparr>"
proof (induction scs arbitrary: acc)
  case Nil
  show ?case by simp
next
  case (Cons sc scs)
  show ?case
    using Cons.IH[of "check_release t m sc acc"]
    by (subst (asm) check_release_frame) simp
qed

text \<open>The projections the later proofs need.\<close>

lemma suppress_loop_pressed [simp]:
  "pressed_keys (fst (suppress_loop c scs acc)) = pressed_keys (fst acc)"
  by (subst suppress_loop_frame) simp

lemma suppress_loop_shortcuts [simp]:
  "shortcuts (fst (suppress_loop c scs acc)) = shortcuts (fst acc)"
  by (subst suppress_loop_frame) simp

lemma check_shortcuts_pressed [simp]:
  "pressed_keys (fst (check_shortcuts t scs acc)) = pressed_keys (fst acc)"
  by (subst check_shortcuts_frame) simp

lemma check_shortcuts_suppressed [simp]:
  "suppressed_keys (fst (check_shortcuts t scs acc)) = suppressed_keys (fst acc)"
  by (subst check_shortcuts_frame) simp

lemma check_releases_pressed [simp]:
  "pressed_keys (fst (check_releases t m scs acc)) = pressed_keys (fst acc)"
  by (subst check_releases_frame) simp

lemma check_releases_suppressed [simp]:
  "suppressed_keys (fst (check_releases t m scs acc)) = suppressed_keys (fst acc)"
  by (subst check_releases_frame) simp

lemma check_releases_active [simp]:
  "active_shortcuts (fst (check_releases t m scs acc)) = active_shortcuts (fst acc)"
  by (subst check_releases_frame) simp

lemma process_key_event_pressed:
  "pressed_keys (fst (process_key_event t e s)) =
     (if ev_value e = key_down then insert (ev_code e) (pressed_keys s)
      else if ev_value e = key_up then pressed_keys s - {ev_code e}
      else pressed_keys s)"
  by (simp add: process_key_event_def Let_def check_all_shortcut_combinations_def
        check_all_combinations_release_def)

lemma process_key_event_suppressed_down:
  assumes "ev_value e = key_down"
  shows "suppressed_keys s \<subseteq> suppressed_keys (fst (process_key_event t e s))"
    and "suppressed_keys (fst (process_key_event t e s)) \<subseteq> insert (ev_code e) (suppressed_keys s)"
    and "ev_code e \<in> MODIFIER_KEYS \<Longrightarrow> suppressed_keys (fst (process_key_event t e s)) = suppressed_keys s"
  using assms
    suppress_loop_bounds(1)[of "(s\<lparr> pressed_keys := insert (ev_code e) (pressed_keys s) \<rparr>, False)" "ev_code e" "shortcuts s"]
    suppress_loop_bounds(2)[of "ev_code e" "shortcuts s" "(s\<lparr> pressed_keys := insert (ev_code e) (pressed_keys s) \<rparr>, False)"]
    suppress_loop_bounds(3)[of "ev_code e" "shortcuts s" "(s\<lparr> pressed_keys := insert (ev_code e) (pressed_keys s) \<rparr>, False)"]
  by (simp_all add: process_key_event_def Let_def check_all_shortcut_combinations_def)

lemma process_key_event_suppressed_other:
  "ev_value e \<noteq> key_down \<Longrightarrow>
   suppressed_keys (fst (process_key_event t e s)) =
     (if ev_value e = key_up then suppressed_keys s - {ev_code e} else suppressed_keys s)"
  by (auto simp add: process_key_event_def Let_def check_all_combinations_release_def)

lemma process_event_state:
  "fst (process_event t e s) = (if ev_type e = EV_KEY then fst (process_key_event t e s) else s)"
  by (simp add: process_event_def Let_def)

section \<open>Evaluating the examples\<close>

lemmas string_defs = combination_parts_def string_to_keycode_def string_to_keycode_standalone_def
  lower_def lower_char_def upper_def upper_char_def startswith_def strip_def is_space_def
  remove_char_def KEY_ALIASES_def

lemmas engine_defs = process_event_def process_key_event_def check_all_shortcut_combinations_def
  check_all_combinations_release_def check_shortcut_def check_release_def suppress_for_def
  make_was_active_map_def is_match_def trigger_callback_def trigger_release_callback_def
  MODIFIER_KEYS_def KEY_LEFTCTRL_def KEY_RIGHTCTRL_def KEY_LEFTALT_def KEY_RIGHTALT_def
  KEY_LEFTSHIFT_def KEY_RIGHTSHIFT_def KEY_LEFTMETA_def KEY_RIGHTMETA_def KEY_D_def KEY_F12_def
  EV_KEY_def key_up_def key_down_def debounce_time_def press_def release_def repeat_def Let_def

lemma parse_ctrl_d: "parse_key_combination ecodes_excerpt ''ctrl+d'' = Some {29, 32}"
  by (simp add: parse_key_combination_def string_defs ecodes_excerpt_def insert_commute)

lemma ctrl_d_engine_eq:
  "ctrl_d_engine =
     (init None True)\<lparr> shortcuts := [\<lparr> shortcut_id = ''ctrl+d_0'', target_keys = {29, 32},
        callback = Some 0, release_callback = Some 1 \<rparr>], all_required_keys := {29, 32} \<rparr>"
  by (simp add: ctrl_d_engine_def add_shortcut_def parse_ctrl_d Let_def init_def digit_char_def str_nat.simps)

lemma ctrl_d_running_eq:
  "ctrl_d_running =
     (init None True)\<lparr> shortcuts := [\<lparr> shortcut_id = ''ctrl+d_0'', target_keys = {29, 32},
        callback = Some 0, release_callback = Some 1 \<rparr>], all_required_keys := {29, 32},
        devices := [example_keyboard], device_fds := [7 \<mapsto> example_keyboard],
        uinput := True, devices_grabbed := True, is_running := True \<rparr>"
  by (simp add: ctrl_d_running_def ctrl_d_engine_eq start_def discover_keyboards_def path_given_def
      init_def Let_def example_keyboard_def setup_key_grabbing_def)

lemma ctrl_d_held_eq:
  "ctrl_d_held =
     (init None True)\<lparr> shortcuts := [\<lparr> shortcut_id = ''ctrl+d_0'', target_keys = {29, 32},
        callback = Some 0, release_callback = Some 1 \<rparr>], all_required_keys := {29, 32},
        devices := [example_keyboard], device_fds := [7 \<mapsto> example_keyboard],
        uinput := True, devices_grabbed := True, is_running := True,
        pressed_keys := {29, 32}, suppressed_keys := {32},
        active_shortcuts := {''ctrl+d_0''}, last_trigger_times := [''ctrl+d_0'' \<mapsto> 1000.2] \<rparr>"
  by (simp add: ctrl_d_held_def ctrl_d_running_eq init_def engine_defs insert_commute)

section \<open>Suppressed keys are pressed keys\<close>

lemma stop_sets:
  "suppressed_keys (stop s) = (if is_running s then {} else suppressed_keys s)"
  "pressed_keys (stop s) = (if is_running s then {} else pressed_keys s)"
  by (simp_all add: stop_def Let_def)

lemma do_step_subset:
  assumes "suppressed_keys s \<subseteq> pressed_keys s"
  shows "suppressed_keys (do_step st s) \<subseteq> pressed_keys (do_step st s)"
proof (cases st)
  case Stop
  then show ?thesis using assms by (simp add: stop_sets)
next
  case (Event t e)
  show ?thesis
  proof (cases "ev_type e = EV_KEY")
    case False
    then show ?thesis using Event assms by (simp add: process_event_state)
  next
    case True
    show ?thesis
    proof (cases "ev_value e = key_down")
      case True
      then show ?thesis
        using Event \<open>ev_type e = EV_KEY\<close> assms process_key_event_suppressed_down(2)[of e t s]
        by (auto simp add: process_event_state process_key_event_pressed)
    next
      case False
      then show ?thesis
        using Event \<open>ev_type e = EV_KEY\<close> assms
        by (auto simp add: process_event_state process_key_event_pressed
              process_key_event_suppressed_other)
    qed
  qed
qed

lemma run_subset:
  "suppressed_keys s \<subseteq> pressed_keys s \<Longrightarrow>
   suppressed_keys (run steps s) \<subseteq> pressed_keys (run steps s)"
  by (induction steps arbitrary: s) (simp_all add: do_step_subset)

lemma do_step_leaves:
  assumes "k \<in> suppressed_keys s"
  shows "(k \<notin> suppressed_keys (do_step st s)) =
         ((\<exists>t e. st = Event t e \<and> ev_type e = EV_KEY \<and> ev_value e = key_up \<and> ev_code e = k)
          \<or> (st = Stop \<and> is_running s))"
proof (cases st)
  case Stop
  then show ?thesis using assms by (simp add: stop_sets)
next
  case (Event t e)
  show ?thesis
  proof (cases "ev_type e = EV_KEY")
    case False
    then show ?thesis using Event assms by (simp add: process_event_state)
  next
    case True
    show ?thesis
    proof (cases "ev_value e = key_down")
      case True
      then show ?thesis
        using Event \<open>ev_type e = EV_KEY\<close> assms process_key_event_suppressed_down(1)[of e s t]
        by (auto simp add: process_event_state key_up_def key_down_def)
    next
      case False
      then show ?thesis
        using Event \<open>ev_type e = EV_KEY\<close> assms
        by (auto simp add: process_event_state process_key_event_suppressed_other)
    qed
  qed
qed

text \<open>
  Claim C1. From an engine whose suppressed keys are among its pressed keys (as after
  \<^verbatim>\<open>__init__\<close>, where both are empty), after every sequence of processed events and calls of
  \<^verbatim>\<open>stop\<close> the set \<^verbatim>\<open>suppressed_keys\<close> is a subset of \<^verbatim>\<open>pressed_keys\<close>; and a key that is
  suppressed leaves \<^verbatim>\<open>suppressed_keys\<close> at the next step exactly when that step is the release of
  this key or a \<^verbatim>\<open>stop\<close> of the running engine.
\<close>

theorem suppressed_subset_pressed:
  assumes "suppressed_keys s0 \<subseteq> pressed_keys s0"
  shows "suppressed_keys (run steps s0) \<subseteq> pressed_keys (run steps s0)
    \<and> (\<forall>k st. k \<in> suppressed_keys (run steps s0) \<longrightarrow>
          (k \<notin> suppressed_keys (do_step st (run steps s0))) =
          ((\<exists>t e. st = Event t e \<and> ev_type e = EV_KEY \<and> ev_value e = key_up \<and> ev_code e = k)
           \<or> (st = Stop \<and> is_running (run steps s0))))"
  using run_subset[OF assms] do_step_leaves by blast

text \<open>The running \<^verbatim>\<open>ctrl+d\<close> engine with ctrl and d held: d is suppressed; releasing d or stopping
  removes it, releasing ctrl does not.\<close>

theorem suppressed_subset_pressed_witness:
  "suppressed_keys ctrl_d_running \<subseteq> pressed_keys ctrl_d_running
   \<and> suppressed_keys ctrl_d_held = {32}
   \<and> pressed_keys ctrl_d_held = {29, 32}
   \<and> 32 \<notin> suppressed_keys (do_step (Event 1001 (release 32)) ctrl_d_held)
   \<and> 32 \<notin> suppressed_keys (do_step Stop ctrl_d_held)
   \<and> 32 \<in> suppressed_keys (do_step (Event 1001 (release 29)) ctrl_d_held)"
proof -
  have h: "suppressed_keys ctrl_d_running \<subseteq> pressed_keys ctrl_d_running"
    by (simp add: ctrl_d_running_eq init_def)
  have r: "is_running ctrl_d_held" and m: "32 \<in> suppressed_keys ctrl_d_held"
    by (simp_all add: ctrl_d_held_eq)
  note c = suppressed_subset_pressed[OF h, of "[Event 1000 (press 29), Event 1000.2 (press 32)]",
      folded ctrl_d_held_def]
  from c m have d: "(32 \<notin> suppressed_keys (do_step st ctrl_d_held)) =
          ((\<exists>t e. st = Event t e \<and> ev_type e = EV_KEY \<and> ev_value e = key_up \<and> ev_code e = 32)
           \<or> (st = Stop \<and> is_running ctrl_d_held))" for st
    by blast
  have 1: "32 \<notin> suppressed_keys (do_step (Event 1001 (release 32)) ctrl_d_held)"
    using d[of "Event 1001 (release 32)"] by (simp add: release_def)
  have 2: "32 \<notin> suppressed_keys (do_step Stop ctrl_d_held)"
    using d[of Stop] r by simp
  have 3: "32 \<in> suppressed_keys (do_step (Event 1001 (release 29)) ctrl_d_held)"
    using d[of "Event 1001 (release 29)"] by (simp add: release_def)
  show ?thesis using h 1 2 3 by (simp add: ctrl_d_held_eq)
qed

section \<open>Key repeat\<close>

text \<open>
  Claim C9. Processing a key-repeat event (an \<^verbatim>\<open>EV_KEY\<close> event of value 2) leaves the engine
  as it was, dispatches no callback, and is suppressed exactly when its key is in
  \<^verbatim>\<open>suppressed_keys\<close>: the only effect is the re-emission of the event to the virtual
  keyboard, made when the devices are grabbed and the key is not suppressed.
\<close>

theorem key_repeat_changes_nothing:
  assumes "ev_type e = EV_KEY" and "ev_value e = 2"
  shows "fst (process_event t e s) = s
    \<and> process_key_event t e s = (s, ev_code e \<in> suppressed_keys s, [])
    \<and> snd (process_event t e s) =
        (if uinput s \<and> devices_grabbed s \<and> ev_code e \<notin> suppressed_keys s
         then [Write EV_KEY (ev_code e) (ev_value e), Syn] else [])"
  using assms by (simp add: process_event_def process_key_event_def key_down_def key_up_def Let_def)

text \<open>With ctrl and d held for \<^verbatim>\<open>ctrl+d\<close>: a repeat of d is swallowed, a repeat of ctrl is
  written to the virtual keyboard, and the engine is unchanged.\<close>

theorem key_repeat_changes_nothing_witness:
  "ev_type (repeat 32) = EV_KEY \<and> ev_value (repeat 32) = 2
   \<and> fst (process_event 1000.3 (repeat 32) ctrl_d_held) = ctrl_d_held
   \<and> snd (process_event 1000.3 (repeat 32) ctrl_d_held) = []
   \<and> snd (process_event 1000.3 (repeat 29) ctrl_d_held) = [Write 1 29 2, Syn]"
proof -
  have h: "ev_type (repeat 32) = EV_KEY" "ev_value (repeat 32) = 2"
    and h': "ev_type (repeat 29) = EV_KEY" "ev_value (repeat 29) = 2"
    by (simp_all add: repeat_def)
  have s: "suppressed_keys ctrl_d_held = {32}" "uinput ctrl_d_held" "devices_grabbed ctrl_d_held"
    by (simp_all add: ctrl_d_held_eq)
  show ?thesis
    using h key_repeat_changes_nothing[OF h, where t = "1000.3" and s = ctrl_d_held]
      key_repeat_changes_nothing[OF h', where t = "1000.3" and s = ctrl_d_held]
    by (simp add: s) (simp add: repeat_def EV_KEY_def)
qed

section \<open>Modifier keys are never suppressed\<close>

lemma do_step_modifiers:
  assumes "suppressed_keys s \<inter> MODIFIER_KEYS = {}"
  shows "suppressed_keys (do_step st s) \<inter> MODIFIER_KEYS = {}"
proof (cases st)
  case Stop
  then show ?thesis using assms by (simp add: stop_sets)
next
  case (Event t e)
  show ?thesis
  proof (cases "ev_type e = EV_KEY")
    case False
    then show ?thesis using Event assms by (simp add: process_event_state)
  next
    case True
    show ?thesis
    proof (cases "ev_value e = key_down")
      case True
      then show ?thesis
        using Event \<open>ev_type e = EV_KEY\<close> assms
          process_key_event_suppressed_down(2)[of e t s]
          process_key_event_suppressed_down(3)[of e t s]
        by (auto simp add: process_event_state)
    next
      case False
      then show ?thesis
        using Event \<open>ev_type e = EV_KEY\<close> assms
        by (auto simp add: process_event_state process_key_event_suppressed_other)
    qed
  qed
qed

lemma run_modifiers:
  "suppressed_keys s \<inter> MODIFIER_KEYS = {} \<Longrightarrow>
   suppressed_keys (run steps s) \<inter> MODIFIER_KEYS = {}"
  by (induction steps arbitrary: s) (simp_all add: do_step_modifiers)

lemma check_releases_uinput [simp]:
  "uinput (fst (check_releases t m scs acc)) = uinput (fst acc)"
  by (subst check_releases_frame) simp

lemma check_releases_grabbed [simp]:
  "devices_grabbed (fst (check_releases t m scs acc)) = devices_grabbed (fst acc)"
  by (subst check_releases_frame) simp

lemma modifier_release_passes:
  assumes "ev_type e = EV_KEY" "ev_value e = key_up" "ev_code e \<in> MODIFIER_KEYS"
  shows "\<not> fst (snd (process_key_event t e s))"
    and "uinput s \<and> devices_grabbed s \<Longrightarrow>
         \<exists>fx. snd (process_event t e s) = fx @ [Write EV_KEY (ev_code e) (ev_value e), Syn]"
  using assms
  by (simp_all add: process_event_def process_key_event_def key_down_def key_up_def Let_def
        check_all_combinations_release_def)

text \<open>
  Claim C5. From an engine that suppresses no modifier (as after \<^verbatim>\<open>__init__\<close>), after every
  sequence of processed events and calls of \<^verbatim>\<open>stop\<close> no modifier key code is in
  \<^verbatim>\<open>suppressed_keys\<close>, whatever the registered shortcuts are; and the release of a
  modifier is never marked suppressed: with the devices grabbed it is written to the virtual
  keyboard.
\<close>

theorem modifiers_never_suppressed:
  assumes "suppressed_keys s0 \<inter> MODIFIER_KEYS = {}"
  shows "suppressed_keys (run steps s0) \<inter> MODIFIER_KEYS = {}
    \<and> (\<forall>t e. ev_type e = EV_KEY \<and> ev_value e = key_up \<and> ev_code e \<in> MODIFIER_KEYS \<longrightarrow>
          \<not> fst (snd (process_key_event t e (run steps s0)))
          \<and> (uinput (run steps s0) \<and> devices_grabbed (run steps s0) \<longrightarrow>
               (\<exists>fx. snd (process_event t e (run steps s0)) =
                      fx @ [Write EV_KEY (ev_code e) (ev_value e), Syn])))"
  using run_modifiers[OF assms] modifier_release_passes by blast

text \<open>With ctrl and d held for \<^verbatim>\<open>ctrl+d\<close>, ctrl is part of the matched shortcut and is not
  suppressed; its release is written out.\<close>

theorem modifiers_never_suppressed_witness:
  "suppressed_keys ctrl_d_running \<inter> MODIFIER_KEYS = {}
   \<and> {29, 32} \<subseteq> pressed_keys ctrl_d_held
   \<and> 29 \<notin> suppressed_keys ctrl_d_held
   \<and> \<not> fst (snd (process_key_event 1001 (release 29) ctrl_d_held))
   \<and> (\<exists>fx. snd (process_event 1001 (release 29) ctrl_d_held) = fx @ [Write 1 29 0, Syn])"
proof -
  have h: "suppressed_keys ctrl_d_running \<inter> MODIFIER_KEYS = {}"
    by (simp add: ctrl_d_running_eq init_def)
  have m: "29 \<in> MODIFIER_KEYS" by (simp add: MODIFIER_KEYS_def KEY_LEFTCTRL_def)
  have e: "ev_type (release 29) = EV_KEY" "ev_value (release 29) = key_up" "ev_code (release 29) = 29"
    by (simp_all add: release_def)
  have g: "uinput ctrl_d_held" "devices_grabbed ctrl_d_held" "{29, 32} \<subseteq> pressed_keys ctrl_d_held"
    by (simp_all add: ctrl_d_held_eq)
  note c = modifiers_never_suppressed[OF h, of "[Event 1000 (press 29), Event 1000.2 (press 32)]",
      folded ctrl_d_held_def]
  from c m have 1: "29 \<notin> suppressed_keys ctrl_d_held" by blast
  note c2 = c[THEN conjunct2, rule_format, of "release 29" 1001, unfolded e(3),
      OF conjI[OF e(1) conjI[OF e(2) m]]]
  note c3 = c2[THEN conjunct2, rule_format, OF conjI[OF g(1) g(2)],
      unfolded e(2) EV_KEY_def key_up_def]
  show ?thesis
    using h g(3) 1 c2[THEN conjunct1] c3 by (intro conjI)
qed

section \<open>Registration\<close>

text \<open>
  Claim C10. A failed registration is atomic: when the combination string fails to parse,
  \<^verbatim>\<open>add_shortcut\<close> returns \<^verbatim>\<open>None\<close> and the engine (the list of shortcuts, the union
  \<^verbatim>\<open>all_required_keys\<close> and every other field) is as before the call; and whenever
  \<^verbatim>\<open>add_shortcut\<close> returns \<^verbatim>\<open>None\<close> the engine is unchanged.
\<close>

theorem failed_registration_is_atomic:
  "(parse_key_combination ecodes key_string = None \<longrightarrow>
      add_shortcut ecodes key_string cb release_cb s = (None, s))
   \<and> (fst (add_shortcut ecodes key_string cb release_cb s) = None \<longrightarrow>
      snd (add_shortcut ecodes key_string cb release_cb s) = s)"
  by (simp add: add_shortcut_def Let_def split: option.splits)

lemma parse_ctrl_foo: "parse_key_combination ecodes_excerpt ''ctrl+foo'' = None"
  by (simp add: parse_key_combination_def string_defs ecodes_excerpt_def)

text \<open>Registering \<^verbatim>\<open>ctrl+foo\<close> on the engine that holds \<^verbatim>\<open>ctrl+d\<close>.\<close>

theorem failed_registration_is_atomic_witness:
  "parse_key_combination ecodes_excerpt ''ctrl+foo'' = None
   \<and> add_shortcut ecodes_excerpt ''ctrl+foo'' (Some 2) None ctrl_d_engine = (None, ctrl_d_engine)"
  using failed_registration_is_atomic[of ecodes_excerpt "''ctrl+foo''" "Some 2" None ctrl_d_engine]
    parse_ctrl_foo
  by simp

section \<open>Stopping the engine\<close>

lemma remove_device_frame:
  "remove_device dev s =
     s\<lparr> devices := devices (remove_device dev s), device_fds := device_fds (remove_device dev s) \<rparr>"
  by (simp add: remove_device_def Let_def)

lemma remove_devices_frame:
  "remove_devices devs s =
     s\<lparr> devices := devices (remove_devices devs s), device_fds := device_fds (remove_devices devs s) \<rparr>"
proof (induction devs arbitrary: s)
  case Nil
  show ?case by simp
next
  case (Cons dev devs)
  show ?case
    using Cons.IH[of "remove_device dev s"]
    by (subst (asm) remove_device_frame) simp
qed

lemma remove_device_head:
  "devices s = dev # rest \<Longrightarrow> devices (remove_device dev s) = rest"
  by (simp add: remove_device_def Let_def)

lemma remove_devices_prefix:
  "devices s = devs @ rest \<Longrightarrow> devices (remove_devices devs s) = rest"
proof (induction devs arbitrary: s)
  case Nil
  then show ?case by simp
next
  case (Cons dev devs)
  from Cons.prems have "devices (remove_device dev s) = devs @ rest"
    by (simp add: remove_device_head)
  then show ?case using Cons.IH by simp
qed

lemma remove_devices_all: "devices (remove_devices (devices s) s) = []"
  by (rule remove_devices_prefix) simp

lemma cleanup_key_grabbing_eq:
  "cleanup_key_grabbing s = s\<lparr> devices_grabbed := False, uinput := False \<rparr>"
  by (simp add: cleanup_key_grabbing_def Let_def)

lemma stop_running_fields:
  assumes "is_running s"
  shows "pressed_keys (stop s) = {}" "suppressed_keys (stop s) = {}"
    "\<not> is_running (stop s)" "devices (stop s) = []"
    "\<not> devices_grabbed (stop s)" "\<not> uinput (stop s)"
    "last_trigger_times (stop s) = last_trigger_times s"
    "last_release_times (stop s) = last_release_times s"
    "active_shortcuts (stop s) = active_shortcuts s"
    "shortcuts (stop s) = shortcuts s"
proof -
  let ?s1 = "cleanup_key_grabbing s"
  have st: "stop s = (remove_devices (devices ?s1) ?s1)\<lparr> is_running := False, pressed_keys := {}, suppressed_keys := {} \<rparr>"
    using assms by (simp add: stop_def Let_def)
  have fr: "remove_devices (devices ?s1) ?s1 =
     ?s1\<lparr> devices := [], device_fds := device_fds (remove_devices (devices ?s1) ?s1) \<rparr>"
    using remove_devices_frame[of "devices ?s1" ?s1] remove_devices_all[of ?s1] by simp
  show "pressed_keys (stop s) = {}" "suppressed_keys (stop s) = {}" "\<not> is_running (stop s)"
    by (simp_all add: st)
  show "devices (stop s) = []" by (simp add: st remove_devices_all)
  show "\<not> devices_grabbed (stop s)" "\<not> uinput (stop s)"
    "last_trigger_times (stop s) = last_trigger_times s"
    "last_release_times (stop s) = last_release_times s"
    "active_shortcuts (stop s) = active_shortcuts s"
    "shortcuts (stop s) = shortcuts s"
    unfolding st by (subst fr, simp add: cleanup_key_grabbing_eq)+
qed

lemma stop_not_running: "\<not> is_running s \<Longrightarrow> stop s = s"
  by (simp add: stop_def)

text \<open>
  Claim C8, as the code has it. After \<^verbatim>\<open>stop\<close> of a running engine, \<^verbatim>\<open>pressed_keys\<close> and
  \<^verbatim>\<open>suppressed_keys\<close> are empty, no device is tracked, the devices are no longer grabbed,
  the virtual keyboard is gone and the engine is not running; the two timestamp maps are
  kept as they were; a second \<^verbatim>\<open>stop\<close> changes nothing.
\<close>

theorem stop_clears_keys_and_devices:
  assumes "is_running s"
  shows "pressed_keys (stop s) = {} \<and> suppressed_keys (stop s) = {}
    \<and> devices (stop s) = [] \<and> \<not> devices_grabbed (stop s) \<and> \<not> uinput (stop s)
    \<and> \<not> is_running (stop s)
    \<and> last_trigger_times (stop s) = last_trigger_times s
    \<and> last_release_times (stop s) = last_release_times s
    \<and> stop (stop s) = stop s"
  using stop_running_fields[OF assms] stop_not_running[of "stop s"] by simp

text \<open>Stopping the \<^verbatim>\<open>ctrl+d\<close> engine while ctrl and d are held.\<close>

theorem stop_clears_keys_and_devices_witness:
  "is_running ctrl_d_held \<and> pressed_keys ctrl_d_held = {29, 32}
   \<and> devices ctrl_d_held = [example_keyboard] \<and> devices_grabbed ctrl_d_held
   \<and> pressed_keys (stop ctrl_d_held) = {} \<and> suppressed_keys (stop ctrl_d_held) = {}
   \<and> devices (stop ctrl_d_held) = [] \<and> \<not> devices_grabbed (stop ctrl_d_held)
   \<and> \<not> uinput (stop ctrl_d_held) \<and> \<not> is_running (stop ctrl_d_held)
   \<and> stop (stop ctrl_d_held) = stop ctrl_d_held"
proof -
  have h: "is_running ctrl_d_held" by (simp add: ctrl_d_held_eq)
  have g: "pressed_keys ctrl_d_held = {29, 32}" "devices ctrl_d_held = [example_keyboard]"
    "devices_grabbed ctrl_d_held"
    by (simp_all add: ctrl_d_held_eq)
  show ?thesis using h g stop_clears_keys_and_devices[OF h] by simp
qed

text \<open>The claim as written fails: the stopped engine still holds the trigger time of
  \<^verbatim>\<open>ctrl+d\<close> and still has it among the active shortcuts.\<close>

theorem stop_keeps_timestamps_counterexample:
  "is_running ctrl_d_held
   \<and> last_trigger_times (stop ctrl_d_held) ''ctrl+d_0'' = Some 1000.2
   \<and> active_shortcuts (stop ctrl_d_held) = {''ctrl+d_0''}"
proof -
  have h: "is_running ctrl_d_held" by (simp add: ctrl_d_held_eq)
  show ?thesis
    using h stop_running_fields(7,9)[OF h] by (simp add: ctrl_d_held_eq)
qed

section \<open>Parsing a combination\<close>

lemma parse_parts_None_iff:
  "parse_parts ecodes parts keys = None \<longleftrightarrow>
     (\<exists>p \<in> set parts. string_to_keycode ecodes (strip p) = None)"
  by (induction parts arbitrary: keys) (auto split: option.splits)

lemma parse_parts_Some:
  "parse_parts ecodes parts keys = Some ks \<Longrightarrow>
     ks = keys \<union> {c. \<exists>p \<in> set parts. string_to_keycode ecodes (strip p) = Some c}"
proof (induction parts arbitrary: keys)
  case Nil
  then show ?case by simp
next
  case (Cons p parts)
  then show ?case by (auto split: option.splits)
qed

lemma parse_parts_standalone_eq:
  "parse_parts_standalone ecodes parts keys =
     keys \<union> {c. \<exists>p \<in> set parts. string_to_keycode_standalone ecodes (strip p) = Some c}"
proof (induction parts arbitrary: keys)
  case Nil
  show ?case by simp
next
  case (Cons p parts)
  show ?case by (cases "string_to_keycode_standalone ecodes (strip p)") (auto simp add: Cons.IH)
qed

lemma string_to_keycode_standalone_eq:
  "string_to_keycode_standalone ecodes k = string_to_keycode ecodes k"
  by (simp add: string_to_keycode_standalone_def string_to_keycode_def)

text \<open>
  Claim C6, as the code has it. A combination string with a segment that resolves to no
  key is rejected as a whole by the parser of the registration path (it returns \<^verbatim>\<open>None\<close>, and
  only then); the standalone parser never fails: it returns the codes of the segments that
  do resolve, or the single code \<^verbatim>\<open>KEY_F12\<close> when none resolves.
\<close>

theorem unresolved_segment_parsing:
  "(parse_key_combination ecodes key_string = None \<longleftrightarrow>
      (\<exists>p \<in> set (combination_parts key_string). string_to_keycode ecodes (strip p) = None))
   \<and> parse_key_combination_standalone ecodes key_string =
       (let resolved = {c. \<exists>p \<in> set (combination_parts key_string).
                             string_to_keycode_standalone ecodes (strip p) = Some c}
        in if resolved = {} then {KEY_F12} else resolved)"
  by (simp add: parse_key_combination_def parse_key_combination_standalone_def
        parse_parts_None_iff parse_parts_standalone_eq Let_def)

lemma parts_ctrl_foo: "combination_parts ''ctrl+foo'' = [''ctrl'', ''foo'']"
  by (simp add: string_defs)

lemma parts_foo: "combination_parts ''foo'' = [''foo'']"
  by (simp add: string_defs)

lemma keycode_foo: "string_to_keycode ecodes_excerpt (strip ''foo'') = None"
  by (simp add: string_defs ecodes_excerpt_def)

lemma keycode_ctrl: "string_to_keycode ecodes_excerpt (strip ''ctrl'') = Some 29"
  by (simp add: string_defs ecodes_excerpt_def)

text \<open>\<^verbatim>\<open>ctrl+foo\<close>: the registration parser rejects it, the standalone parser returns the
  code of ctrl alone.\<close>

theorem unresolved_segment_parsing_witness:
  "string_to_keycode ecodes_excerpt (strip ''foo'') = None
   \<and> ''foo'' \<in> set (combination_parts ''ctrl+foo'')
   \<and> parse_key_combination ecodes_excerpt ''ctrl+foo'' = None
   \<and> parse_key_combination_standalone ecodes_excerpt ''ctrl+foo'' = {29}"
proof -
  have r: "{c. \<exists>p \<in> set (combination_parts ''ctrl+foo'').
               string_to_keycode_standalone ecodes_excerpt (strip p) = Some c} = {29}"
    using keycode_foo keycode_ctrl
    by (auto simp add: parts_ctrl_foo string_to_keycode_standalone_eq)
  have u: "\<exists>p \<in> set (combination_parts ''ctrl+foo''). string_to_keycode ecodes_excerpt (strip p) = None"
    using keycode_foo by (simp add: parts_ctrl_foo)
  note c = unresolved_segment_parsing[of ecodes_excerpt "''ctrl+foo''"]
  have 1: "parse_key_combination ecodes_excerpt ''ctrl+foo'' = None"
    using c[THEN conjunct1] u by (rule iffD2)
  have 2: "parse_key_combination_standalone ecodes_excerpt ''ctrl+foo'' = {29}"
    using c[THEN conjunct2] unfolding r by (simp add: Let_def)
  show ?thesis using keycode_foo 1 2 by (simp add: parts_ctrl_foo)
qed

text \<open>The claim as written fails for the standalone parser: \<^verbatim>\<open>foo\<close> resolves to no key,
  yet \<^verbatim>\<open>ctrl+foo\<close> yields the partial set of ctrl alone, and \<^verbatim>\<open>foo\<close> alone yields F12.\<close>

theorem standalone_partial_set_counterexample:
  "string_to_keycode_standalone ecodes_excerpt (strip ''foo'') = None
   \<and> combination_parts ''ctrl+foo'' = [''ctrl'', ''foo'']
   \<and> parse_key_combination_standalone ecodes_excerpt ''ctrl+foo'' = {KEY_LEFTCTRL}
   \<and> parse_key_combination_standalone ecodes_excerpt ''foo'' = {KEY_F12}"
  by (simp add: parse_key_combination_standalone_def parts_ctrl_foo parts_foo
        string_to_keycode_standalone_eq keycode_foo keycode_ctrl KEY_LEFTCTRL_def KEY_F12_def)

section \<open>Discovery with an explicit device path\<close>

lemma select_device_cases:
  "select_device p devs sel = sel \<and> (\<forall>d \<in> set devs. Some (path d) \<noteq> p)
   \<or> (\<exists>d \<in> set devs. Some (path d) = p \<and> select_device p devs sel = Some d)"
proof (induction devs arbitrary: sel)
  case Nil
  show ?case by simp
next
  case (Cons dev devs)
  show ?case using Cons.IH[of "if Some (path dev) = p then Some dev else sel"]
    by (cases "Some (path dev) = p") auto
qed

lemma select_device_None_iff:
  "select_device p devs None = None \<longleftrightarrow> (\<forall>d \<in> set devs. Some (path d) \<noteq> p)"
  using select_device_cases[of p devs None] by auto

lemma select_device_Some:
  "select_device p devs None = Some d \<Longrightarrow> d \<in> set devs \<and> Some (path d) = p"
  using select_device_cases[of p devs None] by auto

lemma probe_selected:
  assumes "path_given (selected_device_path s)"
  shows "probe_devices [d] s =
     (if ev_key_caps d \<noteq> None \<and> grab_ok d
      then s\<lparr> devices := devices s @ [d], device_fds := (device_fds s)(fd d \<mapsto> d) \<rparr>
      else s)"
  using assms by (simp add: Let_def split: option.splits)

lemma discover_selected:
  assumes "shortcuts s \<noteq> []" "path_given (selected_device_path s)"
  shows "devices (discover_keyboards all_devices s) =
     (case select_device (selected_device_path s) all_devices None of
        None \<Rightarrow> []
      | Some d \<Rightarrow> if ev_key_caps d \<noteq> None \<and> grab_ok d then [d] else [])"
  using assms by (simp add: discover_keyboards_def Let_def probe_selected split: option.splits)

text \<open>
  Claim C7, as the code has it. With at least one shortcut registered and an explicit
  device path given: when no enumerated device is at that path, discovery yields no
  device; when one is, discovery keeps only the (last) device at that path and returns it
  exactly when it has the \<^verbatim>\<open>EV_KEY\<close> capability and the grab probe succeeds, whatever key codes
  it can emit and whatever keys the shortcuts need.
\<close>

theorem explicit_device_discovery:
  assumes "shortcuts s \<noteq> []" and "path_given (selected_device_path s)"
  shows "((\<forall>d \<in> set all_devices. Some (path d) \<noteq> selected_device_path s) \<longrightarrow>
            devices (discover_keyboards all_devices s) = [])
    \<and> ((\<exists>d \<in> set all_devices. Some (path d) = selected_device_path s) \<longrightarrow>
         (\<exists>d \<in> set all_devices. Some (path d) = selected_device_path s
            \<and> select_device (selected_device_path s) all_devices None = Some d
            \<and> devices (discover_keyboards all_devices s) =
                (if ev_key_caps d \<noteq> None \<and> grab_ok d then [d] else [])))"
proof (intro conjI impI)
  assume "\<forall>d \<in> set all_devices. Some (path d) \<noteq> selected_device_path s"
  then have "select_device (selected_device_path s) all_devices None = None"
    by (simp add: select_device_None_iff)
  then show "devices (discover_keyboards all_devices s) = []"
    by (simp add: discover_selected[OF assms])
next
  assume "\<exists>d \<in> set all_devices. Some (path d) = selected_device_path s"
  then obtain d where d: "d \<in> set all_devices" "Some (path d) = selected_device_path s"
    "select_device (selected_device_path s) all_devices None = Some d"
    using select_device_cases[of "selected_device_path s" all_devices None] by auto
  then have "devices (discover_keyboards all_devices s) =
      (if ev_key_caps d \<noteq> None \<and> grab_ok d then [d] else [])"
    by (simp add: discover_selected[OF assms])
  with d show "\<exists>d \<in> set all_devices. Some (path d) = selected_device_path s
            \<and> select_device (selected_device_path s) all_devices None = Some d
            \<and> devices (discover_keyboards all_devices s) =
                (if ev_key_caps d \<noteq> None \<and> grab_ok d then [d] else [])"
    by blast
qed

lemma selected_engine_eq:
  "selected_engine p =
     (init (Some p) True)\<lparr> shortcuts := [\<lparr> shortcut_id = ''ctrl+d_0'', target_keys = {29, 32},
        callback = Some 0, release_callback = Some 1 \<rparr>], all_required_keys := {29, 32} \<rparr>"
  by (simp add: selected_engine_def add_shortcut_def parse_ctrl_d Let_def init_def digit_char_def str_nat.simps)

text \<open>The macro pad is selected by path: it cannot emit \<^verbatim>\<open>ctrl+d\<close> and is returned all the
  same; a path at which no device is gives no device.\<close>

theorem explicit_device_discovery_witness:
  "shortcuts (selected_engine ''/dev/input/event5'') \<noteq> []
   \<and> path_given (selected_device_path (selected_engine ''/dev/input/event5''))
   \<and> ev_key_caps example_keypad = Some [88]
   \<and> devices (discover_keyboards [example_keyboard, example_keypad, example_sensor]
        (selected_engine ''/dev/input/event5'')) = [example_keypad]
   \<and> devices (discover_keyboards [example_keyboard, example_sensor]
        (selected_engine ''/dev/input/event5'')) = []"
proof -
  let ?s = "selected_engine ''/dev/input/event5''"
  have h: "shortcuts ?s \<noteq> []" "path_given (selected_device_path ?s)"
    by (simp_all add: selected_engine_eq init_def path_given_def)
  have p: "selected_device_path ?s = Some ''/dev/input/event5''"
    by (simp add: selected_engine_eq init_def)
  have k: "ev_key_caps example_keypad = Some [88]" "grab_ok example_keypad"
    by (simp_all add: example_keypad_def)
  have sel: "select_device (Some ''/dev/input/event5'')
      [example_keyboard, example_keypad, example_sensor] None = Some example_keypad"
    by (simp add: example_keyboard_def example_keypad_def example_sensor_def)
  have ex: "\<exists>d \<in> set [example_keyboard, example_keypad, example_sensor].
      Some (path d) = selected_device_path ?s"
    unfolding p by (simp add: example_keypad_def)
  have no: "\<forall>d \<in> set [example_keyboard, example_sensor]. Some (path d) \<noteq> selected_device_path ?s"
    unfolding p by (simp add: example_keyboard_def example_sensor_def)
  from explicit_device_discovery[OF h, of "[example_keyboard, example_keypad, example_sensor]",
      THEN conjunct2, rule_format, OF ex]
  have 1: "devices (discover_keyboards [example_keyboard, example_keypad, example_sensor] ?s)
      = [example_keypad]"
    unfolding p sel using k by auto
  from explicit_device_discovery[OF h, of "[example_keyboard, example_sensor]",
      THEN conjunct1, THEN mp, OF no]
  have 2: "devices (discover_keyboards [example_keyboard, example_sensor] ?s) = []" .
  show ?thesis using h k(1) 1 2 by (intro conjI)
qed

text \<open>The claim as written fails: the lid sensor is at the selected path and its grab
  probe succeeds, but it has no \<^verbatim>\<open>EV_KEY\<close> capability and discovery drops it; and an engine
  without shortcuts discovers nothing at all.\<close>

theorem explicit_device_without_keys_counterexample:
  "path example_sensor = ''/dev/input/event9'' \<and> grab_ok example_sensor
   \<and> selected_device_path (selected_engine ''/dev/input/event9'') = Some ''/dev/input/event9''
   \<and> devices (discover_keyboards [example_keyboard, example_sensor]
        (selected_engine ''/dev/input/event9'')) = []
   \<and> devices (discover_keyboards [example_keyboard]
        (init (Some ''/dev/input/event3'') True)) = []"
  by (simp add: selected_engine_eq init_def discover_keyboards_def path_given_def
        example_keyboard_def example_sensor_def Let_def)

section \<open>Activation at a key-down\<close>

text \<open>The decision of the loop body for one shortcut, read off the engine before the loop:
  the shortcut fires when it matches, is not active and its debounce interval has passed.\<close>

lemma check_shortcut_active:
  "x \<in> active_shortcuts (fst (check_shortcut t sc acc)) \<longleftrightarrow>
     (if x = shortcut_id sc
      then is_match sc (pressed_keys (fst acc)) \<and>
           (x \<in> active_shortcuts (fst acc) \<or>
            t - (case last_trigger_times (fst acc) x of None \<Rightarrow> 0 | Some v \<Rightarrow> v) > debounce_time)
      else x \<in> active_shortcuts (fst acc))"
  by (simp add: check_shortcut_def Let_def)

lemma check_shortcut_last_other:
  "x \<noteq> shortcut_id sc \<Longrightarrow>
   last_trigger_times (fst (check_shortcut t sc acc)) x = last_trigger_times (fst acc) x"
  by (simp add: check_shortcut_def Let_def)

lemma check_shortcut_pressed [simp]:
  "pressed_keys (fst (check_shortcut t sc acc)) = pressed_keys (fst acc)"
  by (simp add: check_shortcut_def Let_def)

lemma check_shortcut_effects:
  "snd (check_shortcut t sc acc) =
     snd acc @
     (if is_match sc (pressed_keys (fst acc)) \<and> shortcut_id sc \<notin> active_shortcuts (fst acc) \<and>
         t - (case last_trigger_times (fst acc) (shortcut_id sc) of None \<Rightarrow> 0 | Some v \<Rightarrow> v)
           > debounce_time
      then trigger_callback sc else [])"
  by (simp add: check_shortcut_def Let_def)

lemma check_shortcuts_other:
  "x \<notin> shortcut_id ` set scs \<Longrightarrow>
   (x \<in> active_shortcuts (fst (check_shortcuts t scs acc)) \<longleftrightarrow> x \<in> active_shortcuts (fst acc))
   \<and> last_trigger_times (fst (check_shortcuts t scs acc)) x = last_trigger_times (fst acc) x"
proof (induction scs arbitrary: acc)
  case Nil
  show ?case by simp
next
  case (Cons sc scs)
  from Cons.prems have ne: "x \<noteq> shortcut_id sc" and rest: "x \<notin> shortcut_id ` set scs" by auto
  show ?case
    using Cons.IH[OF rest, of "check_shortcut t sc acc"] ne
    by (simp add: check_shortcut_active check_shortcut_last_other)
qed

lemma check_shortcuts_member:
  assumes "distinct (map shortcut_id scs)" and "sc \<in> set scs"
  shows "shortcut_id sc \<in> active_shortcuts (fst (check_shortcuts t scs acc)) \<longleftrightarrow>
     is_match sc (pressed_keys (fst acc)) \<and>
     (shortcut_id sc \<in> active_shortcuts (fst acc) \<or>
      t - (case last_trigger_times (fst acc) (shortcut_id sc) of None \<Rightarrow> 0 | Some v \<Rightarrow> v)
        > debounce_time)"
  using assms
proof (induction scs arbitrary: acc)
  case Nil
  then show ?case by simp
next
  case (Cons sc' scs)
  from Cons.prems have d: "distinct (map shortcut_id scs)"
    and nh: "shortcut_id sc' \<notin> shortcut_id ` set scs" by auto
  show ?case
  proof (cases "sc = sc'")
    case True
    then show ?thesis
      using check_shortcuts_other[OF nh, of t "check_shortcut t sc' acc"]
      by (simp add: check_shortcut_active)
  next
    case False
    with Cons.prems have m: "sc \<in> set scs" by simp
    with nh have ne: "shortcut_id sc \<noteq> shortcut_id sc'" by (metis image_eqI)
    show ?thesis
      using Cons.IH[OF d m, of "check_shortcut t sc' acc"] ne
      by (simp add: check_shortcut_active check_shortcut_last_other)
  qed
qed

lemma check_shortcuts_effects:
  assumes "distinct (map shortcut_id scs)"
  shows "snd (check_shortcuts t scs acc) =
     snd acc @ concat (map (\<lambda>sc.
       if is_match sc (pressed_keys (fst acc)) \<and> shortcut_id sc \<notin> active_shortcuts (fst acc) \<and>
          t - (case last_trigger_times (fst acc) (shortcut_id sc) of None \<Rightarrow> 0 | Some v \<Rightarrow> v)
            > debounce_time
       then trigger_callback sc else []) scs)"
  using assms
proof (induction scs arbitrary: acc)
  case Nil
  show ?case by simp
next
  case (Cons sc' scs)
  from Cons.prems have d: "distinct (map shortcut_id scs)"
    and nh: "shortcut_id sc' \<notin> shortcut_id ` set scs" by auto
  let ?acc = "check_shortcut t sc' acc"
  have same: "\<And>sc. sc \<in> set scs \<Longrightarrow>
      (shortcut_id sc \<notin> active_shortcuts (fst ?acc)) = (shortcut_id sc \<notin> active_shortcuts (fst acc))
      \<and> last_trigger_times (fst ?acc) (shortcut_id sc) = last_trigger_times (fst acc) (shortcut_id sc)"
  proof -
    fix sc assume "sc \<in> set scs"
    with nh have "shortcut_id sc \<noteq> shortcut_id sc'" by (metis image_eqI)
    then show "(shortcut_id sc \<notin> active_shortcuts (fst ?acc)) = (shortcut_id sc \<notin> active_shortcuts (fst acc))
      \<and> last_trigger_times (fst ?acc) (shortcut_id sc) = last_trigger_times (fst acc) (shortcut_id sc)"
      by (simp add: check_shortcut_active check_shortcut_last_other)
  qed
  have "snd (check_shortcuts t (sc' # scs) acc) = snd (check_shortcuts t scs ?acc)" by simp
  also have "\<dots> = snd ?acc @ concat (map (\<lambda>sc.
       if is_match sc (pressed_keys (fst ?acc)) \<and> shortcut_id sc \<notin> active_shortcuts (fst ?acc) \<and>
          t - (case last_trigger_times (fst ?acc) (shortcut_id sc) of None \<Rightarrow> 0 | Some v \<Rightarrow> v)
            > debounce_time
       then trigger_callback sc else []) scs)"
    by (rule Cons.IH[OF d])
  also have "map (\<lambda>sc.
       if is_match sc (pressed_keys (fst ?acc)) \<and> shortcut_id sc \<notin> active_shortcuts (fst ?acc) \<and>
          t - (case last_trigger_times (fst ?acc) (shortcut_id sc) of None \<Rightarrow> 0 | Some v \<Rightarrow> v)
            > debounce_time
       then trigger_callback sc else []) scs
     = map (\<lambda>sc.
       if is_match sc (pressed_keys (fst acc)) \<and> shortcut_id sc \<notin> active_shortcuts (fst acc) \<and>
          t - (case last_trigger_times (fst acc) (shortcut_id sc) of None \<Rightarrow> 0 | Some v \<Rightarrow> v)
            > debounce_time
       then trigger_callback sc else []) scs"
    by (rule map_cong[OF refl]) (simp add: same)
  finally show ?case by (simp add: check_shortcut_effects)
qed

text \<open>What a key-down does to one registered shortcut, for a registry with distinct ids.\<close>

lemma suppress_loop_active [simp]:
  "active_shortcuts (fst (suppress_loop c scs acc)) = active_shortcuts (fst acc)"
  by (subst suppress_loop_frame) simp

lemma suppress_loop_last_trigger [simp]:
  "last_trigger_times (fst (suppress_loop c scs acc)) = last_trigger_times (fst acc)"
  by (subst suppress_loop_frame) simp

lemma key_down_state:
  assumes "ev_type e = EV_KEY" "ev_value e = key_down"
  shows "pressed_keys (fst (process_event t e s)) = insert (ev_code e) (pressed_keys s)"
    and "shortcuts (fst (process_event t e s)) = shortcuts s"
proof -
  show "pressed_keys (fst (process_event t e s)) = insert (ev_code e) (pressed_keys s)"
    using assms by (simp add: process_event_state process_key_event_pressed)
  show "shortcuts (fst (process_event t e s)) = shortcuts s"
    using assms
    by (simp add: process_event_state process_key_event_def Let_def
          check_all_shortcut_combinations_def)
       (subst check_shortcuts_frame, simp)
qed

lemma key_down_active:
  assumes "distinct (map shortcut_id (shortcuts s))" "sc \<in> set (shortcuts s)"
    and "ev_type e = EV_KEY" "ev_value e = key_down"
  shows "shortcut_id sc \<in> active_shortcuts (fst (process_event t e s)) \<longleftrightarrow>
     is_match sc (insert (ev_code e) (pressed_keys s)) \<and>
     (shortcut_id sc \<in> active_shortcuts s \<or>
      t - (case last_trigger_times s (shortcut_id sc) of None \<Rightarrow> 0 | Some v \<Rightarrow> v)
        > debounce_time)"
  using assms(3,4)
    check_shortcuts_member[OF assms(1,2), of t
      "(fst (suppress_loop (ev_code e) (shortcuts s)
          (s\<lparr> pressed_keys := insert (ev_code e) (pressed_keys s) \<rparr>, False)), [])"]
  by (simp add: process_event_state process_key_event_def Let_def
        check_all_shortcut_combinations_def)

lemma key_down_effects:
  assumes "distinct (map shortcut_id (shortcuts s))"
    and "ev_type e = EV_KEY" "ev_value e = key_down"
  shows "\<exists>out. set out \<subseteq> {Write EV_KEY (ev_code e) (ev_value e), Syn} \<and>
     snd (process_event t e s) =
     concat (map (\<lambda>sc.
       if is_match sc (insert (ev_code e) (pressed_keys s)) \<and> shortcut_id sc \<notin> active_shortcuts s \<and>
          t - (case last_trigger_times s (shortcut_id sc) of None \<Rightarrow> 0 | Some v \<Rightarrow> v)
            > debounce_time
       then trigger_callback sc else []) (shortcuts s)) @ out"
proof -
  let ?r = "suppress_loop (ev_code e) (shortcuts s)
          (s\<lparr> pressed_keys := insert (ev_code e) (pressed_keys s) \<rparr>, False)"
  have fx: "snd (snd (process_key_event t e s)) =
     concat (map (\<lambda>sc.
       if is_match sc (insert (ev_code e) (pressed_keys s)) \<and> shortcut_id sc \<notin> active_shortcuts s \<and>
          t - (case last_trigger_times s (shortcut_id sc) of None \<Rightarrow> 0 | Some v \<Rightarrow> v)
            > debounce_time
       then trigger_callback sc else []) (shortcuts s))"
    using assms(3) check_shortcuts_effects[OF assms(1), of t "(fst ?r, [])"]
    by (simp add: process_key_event_def Let_def check_all_shortcut_combinations_def)
  show ?thesis
    using assms(2) fx
    by (auto simp add: process_event_def Let_def)
qed

lemma press_callback_in_concat:
  assumes "distinct (map shortcut_id scs)" "sc \<in> set scs"
  shows "PressCallback (shortcut_id sc) \<in>
      set (concat (map (\<lambda>sc. if P sc then trigger_callback sc else []) scs))
     \<longleftrightarrow> P sc \<and> callback sc \<noteq> None"
proof
  assume "PressCallback (shortcut_id sc) \<in>
      set (concat (map (\<lambda>sc. if P sc then trigger_callback sc else []) scs))"
  then obtain sc' where sc': "sc' \<in> set scs" "P sc'" "PressCallback (shortcut_id sc) \<in> set (trigger_callback sc')"
    by (auto split: if_splits)
  then have c: "shortcut_id sc' = shortcut_id sc \<and> callback sc' \<noteq> None"
    by (cases "callback sc'") (simp_all add: trigger_callback_def)
  with assms sc'(1) have "sc' = sc"
    by (metis distinct_map inj_on_def)
  with c show "P sc \<and> callback sc \<noteq> None" using sc'(2) by simp
next
  assume "P sc \<and> callback sc \<noteq> None"
  then have "PressCallback (shortcut_id sc) \<in> set (if P sc then trigger_callback sc else [])"
    by (auto simp add: trigger_callback_def)
  with assms(2) show "PressCallback (shortcut_id sc) \<in>
      set (concat (map (\<lambda>sc. if P sc then trigger_callback sc else []) scs))"
    by auto
qed

lemma key_down_press_callback:
  assumes "distinct (map shortcut_id (shortcuts s))" "sc \<in> set (shortcuts s)"
    and "ev_type e = EV_KEY" "ev_value e = key_down"
  shows "PressCallback (shortcut_id sc) \<in> set (snd (process_event t e s)) \<longleftrightarrow>
     is_match sc (insert (ev_code e) (pressed_keys s)) \<and> shortcut_id sc \<notin> active_shortcuts s \<and>
     t - (case last_trigger_times s (shortcut_id sc) of None \<Rightarrow> 0 | Some v \<Rightarrow> v) > debounce_time \<and>
     callback sc \<noteq> None"
proof -
  obtain out where out: "set out \<subseteq> {Write EV_KEY (ev_code e) (ev_value e), Syn}"
    and eq: "snd (process_event t e s) =
     concat (map (\<lambda>sc.
       if is_match sc (insert (ev_code e) (pressed_keys s)) \<and> shortcut_id sc \<notin> active_shortcuts s \<and>
          t - (case last_trigger_times s (shortcut_id sc) of None \<Rightarrow> 0 | Some v \<Rightarrow> v)
            > debounce_time
       then trigger_callback sc else []) (shortcuts s)) @ out"
    using key_down_effects[OF assms(1,3,4)] by blast
  have no: "PressCallback (shortcut_id sc) \<notin> set out" using out by auto
  show ?thesis
    unfolding eq using no
      press_callback_in_concat[OF assms(1,2), of "\<lambda>sc.
        is_match sc (insert (ev_code e) (pressed_keys s)) \<and> shortcut_id sc \<notin> active_shortcuts s \<and>
          t - (case last_trigger_times s (shortcut_id sc) of None \<Rightarrow> 0 | Some v \<Rightarrow> v)
            > debounce_time"]
    by auto
qed

section \<open>Membership in the active shortcuts\<close>

text \<open>
  Claim C2, as the code has it. For a registry with distinct ids (as every registry built
  by \<^verbatim>\<open>add_shortcut\<close> has, lemma \<open>registered_ids_distinct\<close>), after a key-down event is
  processed at time \<open>t\<close>, the id of a registered shortcut is in \<^verbatim>\<open>active_shortcuts\<close> exactly
  when the shortcut is a full, unambiguous match of the keys now pressed and it either was
  active before the event or more than the debounce interval has passed since its last
  trigger; its press callback is dispatched by this event exactly when it matches, was not
  active, the debounce interval has passed and the callback is present. A shortcut that a
  key-down observes as a non-match is not active afterwards.
\<close>

theorem active_after_key_down:
  assumes "distinct (map shortcut_id (shortcuts s))" and "sc \<in> set (shortcuts s)"
    and "ev_type e = EV_KEY" and "ev_value e = key_down"
  shows "pressed_keys (fst (process_event t e s)) = insert (ev_code e) (pressed_keys s)
    \<and> (shortcut_id sc \<in> active_shortcuts (fst (process_event t e s)) \<longleftrightarrow>
         is_match sc (pressed_keys (fst (process_event t e s))) \<and>
         (shortcut_id sc \<in> active_shortcuts s \<or>
          t - (case last_trigger_times s (shortcut_id sc) of None \<Rightarrow> 0 | Some v \<Rightarrow> v)
            > debounce_time))
    \<and> (PressCallback (shortcut_id sc) \<in> set (snd (process_event t e s)) \<longleftrightarrow>
         is_match sc (pressed_keys (fst (process_event t e s))) \<and>
         shortcut_id sc \<notin> active_shortcuts s \<and>
         t - (case last_trigger_times s (shortcut_id sc) of None \<Rightarrow> 0 | Some v \<Rightarrow> v)
           > debounce_time \<and>
         callback sc \<noteq> None)"
  unfolding key_down_state(1)[OF assms(3,4)]
  using key_down_active[OF assms] key_down_press_callback[OF assms]
  by (intro conjI refl)

lemma ctrl_d_bounced_eq:
  "ctrl_d_bounced =
     (init None True)\<lparr> shortcuts := [\<lparr> shortcut_id = ''ctrl+d_0'', target_keys = {29, 32},
        callback = Some 0, release_callback = Some 1 \<rparr>], all_required_keys := {29, 32},
        devices := [example_keyboard], device_fds := [7 \<mapsto> example_keyboard],
        uinput := True, devices_grabbed := True, is_running := True,
        pressed_keys := {29, 32}, suppressed_keys := {32},
        active_shortcuts := {}, last_trigger_times := [''ctrl+d_0'' \<mapsto> 1000.2],
        last_release_times := [''ctrl+d_0'' \<mapsto> 1000.21] \<rparr>"
  by (simp add: ctrl_d_bounced_def ctrl_d_held_eq init_def engine_defs insert_commute)

lemma ctrl_held_eq:
  "ctrl_held =
     (init None True)\<lparr> shortcuts := [ctrl_d_shortcut], all_required_keys := {29, 32},
        devices := [example_keyboard], device_fds := [7 \<mapsto> example_keyboard],
        uinput := True, devices_grabbed := True, is_running := True,
        pressed_keys := {29} \<rparr>"
  by (simp add: ctrl_held_def ctrl_d_running_eq ctrl_d_shortcut_def init_def engine_defs)

text \<open>With ctrl held, the key-down of d at 1000.2 activates \<^verbatim>\<open>ctrl+d\<close> and dispatches its press
  callback.\<close>

theorem active_after_key_down_witness:
  "distinct (map shortcut_id (shortcuts ctrl_held))
   \<and> ctrl_d_shortcut \<in> set (shortcuts ctrl_held)
   \<and> ev_type (press 32) = EV_KEY \<and> ev_value (press 32) = key_down
   \<and> pressed_keys (fst (process_event 1000.2 (press 32) ctrl_held)) = {29, 32}
   \<and> ''ctrl+d_0'' \<in> active_shortcuts (fst (process_event 1000.2 (press 32) ctrl_held))
   \<and> PressCallback ''ctrl+d_0'' \<in> set (snd (process_event 1000.2 (press 32) ctrl_held))"
proof -
  have h: "distinct (map shortcut_id (shortcuts ctrl_held))"
    "ctrl_d_shortcut \<in> set (shortcuts ctrl_held)"
    "ev_type (press 32) = EV_KEY" "ev_value (press 32) = key_down"
    by (simp_all add: ctrl_held_eq press_def)
  note c = active_after_key_down[OF h, of "1000.2"]
  have p: "pressed_keys (fst (process_event 1000.2 (press 32) ctrl_held)) = {29, 32}"
    using c[THEN conjunct1] by (simp add: ctrl_held_eq press_def insert_commute)
  have m: "is_match ctrl_d_shortcut {29, 32}"
    by (simp add: is_match_def ctrl_d_shortcut_def)
  have f: "shortcut_id ctrl_d_shortcut = ''ctrl+d_0''" "callback ctrl_d_shortcut \<noteq> None"
    "''ctrl+d_0'' \<notin> active_shortcuts ctrl_held"
    "(1000.2::real) - (case last_trigger_times ctrl_held ''ctrl+d_0'' of None \<Rightarrow> 0 | Some v \<Rightarrow> v)
       > debounce_time"
    by (simp_all add: ctrl_d_shortcut_def ctrl_held_eq init_def debounce_time_def)
  have a: "''ctrl+d_0'' \<in> active_shortcuts (fst (process_event 1000.2 (press 32) ctrl_held))"
    using c[THEN conjunct2, THEN conjunct1] m f unfolding p f(1) by blast
  have b: "PressCallback ''ctrl+d_0'' \<in> set (snd (process_event 1000.2 (press 32) ctrl_held))"
    using c[THEN conjunct2, THEN conjunct2] m f unfolding p f(1) by blast
  show ?thesis using h p a b by (intro conjI)
qed

text \<open>The claim as written fails. After the bounce, ctrl and d are held with no other key:
  \<^verbatim>\<open>ctrl+d\<close> was last observed as a full, unambiguous match, yet it is not active, because its
  debounce interval has not passed. And the key-up of d that breaks the match of the active
  \<^verbatim>\<open>ctrl+d\<close> leaves its id in \<^verbatim>\<open>active_shortcuts\<close>.\<close>

theorem active_iff_match_counterexample:
  "shortcuts ctrl_d_bounced = [ctrl_d_shortcut]
   \<and> pressed_keys ctrl_d_bounced = {29, 32}
   \<and> is_match ctrl_d_shortcut (pressed_keys ctrl_d_bounced)
   \<and> shortcut_id ctrl_d_shortcut \<notin> active_shortcuts ctrl_d_bounced
   \<and> shortcut_id ctrl_d_shortcut \<in> active_shortcuts ctrl_d_held
   \<and> \<not> target_keys ctrl_d_shortcut
         \<subseteq> pressed_keys (fst (process_event 1000.21 (release 32) ctrl_d_held))
   \<and> shortcut_id ctrl_d_shortcut
         \<in> active_shortcuts (fst (process_event 1000.21 (release 32) ctrl_d_held))"
proof -
  have 1: "shortcuts ctrl_d_bounced = [ctrl_d_shortcut]" "pressed_keys ctrl_d_bounced = {29, 32}"
    "shortcut_id ctrl_d_shortcut \<notin> active_shortcuts ctrl_d_bounced"
    "shortcut_id ctrl_d_shortcut \<in> active_shortcuts ctrl_d_held"
    by (simp_all add: ctrl_d_bounced_eq ctrl_d_held_eq ctrl_d_shortcut_def)
  have 2: "is_match ctrl_d_shortcut (pressed_keys ctrl_d_bounced)"
    unfolding 1(2) by (simp add: is_match_def ctrl_d_shortcut_def)
  have 3: "\<not> target_keys ctrl_d_shortcut
         \<subseteq> pressed_keys (fst (process_event 1000.21 (release 32) ctrl_d_held))"
    "shortcut_id ctrl_d_shortcut
         \<in> active_shortcuts (fst (process_event 1000.21 (release 32) ctrl_d_held))"
    by (simp_all add: ctrl_d_held_eq init_def engine_defs ctrl_d_shortcut_def)
  show ?thesis using 1 2 3 by (intro conjI)
qed

section \<open>Debounce and reactivation\<close>

lemma parse_f12: "parse_key_combination ecodes_excerpt ''f12'' = Some {88}"
  by (simp add: parse_key_combination_def string_defs ecodes_excerpt_def)

lemma f12_running_eq:
  "f12_running =
     (init None True)\<lparr> shortcuts := [f12_shortcut], all_required_keys := {88},
        devices := [example_keyboard], device_fds := [7 \<mapsto> example_keyboard],
        uinput := True, devices_grabbed := True, is_running := True \<rparr>"
  by (simp add: f12_running_def f12_engine_def add_shortcut_def parse_f12 start_def
      discover_keyboards_def path_given_def init_def Let_def example_keyboard_def
      setup_key_grabbing_def f12_shortcut_def digit_char_def str_nat.simps)

lemma run_events_step:
  "process_event t e s = (s', fx) \<Longrightarrow> run_events tes s' = (s'', fx') \<Longrightarrow>
   run_events ((t, e) # tes) s = (s'', fx @ fx')"
  by (simp add: Let_def)

text \<open>
  Claim C3 at a single-key shortcut. F12 is pressed, fully released and pressed again
  500 ms later: the whole trace dispatches the press callback of \<^verbatim>\<open>f12\<close> once. The key-up
  left the shortcut in \<^verbatim>\<open>active_shortcuts\<close>, so the second key-down finds it active and does
  not trigger.
\<close>

theorem single_key_second_press_not_triggered:
  "snd (run_events f12_twice f12_running) = [PressCallback ''f12_0'', ReleaseCallback ''f12_0'']
   \<and> length (filter (\<lambda>x. x = PressCallback ''f12_0'') (snd (run_events f12_twice f12_running))) = 1
   \<and> ''f12_0'' \<in> active_shortcuts
        (fst (run_events [(1000, press 88), (1000.05, release 88)] f12_running))
   \<and> pressed_keys (fst (run_events [(1000, press 88), (1000.05, release 88)] f12_running)) = {}"
proof -
  let ?s1 = "f12_running\<lparr> pressed_keys := {88}, suppressed_keys := {88},
      active_shortcuts := {''f12_0''}, last_trigger_times := [''f12_0'' \<mapsto> 1000] \<rparr>"
  let ?s2 = "f12_running\<lparr> pressed_keys := {}, suppressed_keys := {},
      active_shortcuts := {''f12_0''}, last_trigger_times := [''f12_0'' \<mapsto> 1000],
      last_release_times := [''f12_0'' \<mapsto> 1000.05] \<rparr>"
  have p1: "process_event 1000 (press 88) f12_running = (?s1, [PressCallback ''f12_0''])"
    by (simp add: f12_running_eq f12_shortcut_def init_def engine_defs)
  have p2: "process_event 1000.05 (release 88) ?s1 = (?s2, [ReleaseCallback ''f12_0''])"
    by (simp add: f12_running_eq f12_shortcut_def init_def engine_defs)
  have p3: "process_event 1000.5 (press 88) ?s2 = (?s1\<lparr> last_release_times := [''f12_0'' \<mapsto> 1000.05] \<rparr>, [])"
    by (simp add: f12_running_eq f12_shortcut_def init_def engine_defs)
  have r0: "\<And>s. run_events [] s = (s, [])" by simp
  note r3 = run_events_step[OF p3 r0]
  note r2 = run_events_step[OF p2 r3]
  note r1 = run_events_step[OF p1 r2]
  note q2 = run_events_step[OF p2 r0]
  note q1 = run_events_step[OF p1 q2]
  have a: "snd (run_events f12_twice f12_running) = [PressCallback ''f12_0'', ReleaseCallback ''f12_0'']"
    unfolding f12_twice_def r1 by simp
  have b: "length (filter (\<lambda>x. x = PressCallback ''f12_0'') (snd (run_events f12_twice f12_running))) = 1"
    unfolding a by simp
  have c: "''f12_0'' \<in> active_shortcuts
        (fst (run_events [(1000, press 88), (1000.05, release 88)] f12_running))"
    "pressed_keys (fst (run_events [(1000, press 88), (1000.05, release 88)] f12_running)) = {}"
    unfolding q1 by simp_all
  show ?thesis using a b c by (intro conjI)
qed

text \<open>For the two-key shortcut \<^verbatim>\<open>ctrl+d\<close> the first key-down of the second activation
  observes a non-match and clears the flag: two press callbacks when the activations are
  500 ms apart, one when they are 40 ms apart.\<close>

lemma ctrl_d_reactivation:
  "length (filter (\<lambda>x. x = PressCallback ''ctrl+d_0'')
      (snd (run_events ctrl_d_twice_slow ctrl_d_running))) = 2"
  "length (filter (\<lambda>x. x = PressCallback ''ctrl+d_0'')
      (snd (run_events ctrl_d_twice_fast ctrl_d_running))) = 1"
proof -
  let ?s1 = "ctrl_d_running\<lparr> pressed_keys := {29} \<rparr>"
  let ?s2 = "ctrl_d_running\<lparr> pressed_keys := {29, 32}, suppressed_keys := {32},
      active_shortcuts := {''ctrl+d_0''}, last_trigger_times := [''ctrl+d_0'' \<mapsto> 1000.01] \<rparr>"
  let ?s3 = "ctrl_d_running\<lparr> pressed_keys := {29}, suppressed_keys := {},
      active_shortcuts := {''ctrl+d_0''}, last_trigger_times := [''ctrl+d_0'' \<mapsto> 1000.01],
      last_release_times := [''ctrl+d_0'' \<mapsto> 1000.02] \<rparr>"
  let ?s4 = "ctrl_d_running\<lparr> pressed_keys := {}, suppressed_keys := {},
      active_shortcuts := {''ctrl+d_0''}, last_trigger_times := [''ctrl+d_0'' \<mapsto> 1000.01],
      last_release_times := [''ctrl+d_0'' \<mapsto> 1000.02] \<rparr>"
  let ?s5 = "ctrl_d_running\<lparr> pressed_keys := {29}, suppressed_keys := {},
      active_shortcuts := {}, last_trigger_times := [''ctrl+d_0'' \<mapsto> 1000.01],
      last_release_times := [''ctrl+d_0'' \<mapsto> 1000.02] \<rparr>"
  let ?s6 = "ctrl_d_running\<lparr> pressed_keys := {29, 32}, suppressed_keys := {32},
      active_shortcuts := {''ctrl+d_0''}, last_trigger_times := [''ctrl+d_0'' \<mapsto> 1000.51],
      last_release_times := [''ctrl+d_0'' \<mapsto> 1000.02] \<rparr>"
  let ?s6' = "ctrl_d_running\<lparr> pressed_keys := {29, 32}, suppressed_keys := {32},
      active_shortcuts := {}, last_trigger_times := [''ctrl+d_0'' \<mapsto> 1000.01],
      last_release_times := [''ctrl+d_0'' \<mapsto> 1000.02] \<rparr>"
  have p1: "process_event 1000 (press 29) ctrl_d_running = (?s1, [Write 1 29 1, Syn])"
    by (simp add: ctrl_d_running_eq init_def engine_defs)
  have p2: "process_event 1000.01 (press 32) ?s1 = (?s2, [PressCallback ''ctrl+d_0''])"
    by (simp add: ctrl_d_running_eq init_def engine_defs insert_commute)
  have p3: "process_event 1000.02 (release 32) ?s2 = (?s3, [ReleaseCallback ''ctrl+d_0''])"
    by (simp add: ctrl_d_running_eq init_def engine_defs insert_Diff_if)
  have p4: "process_event 1000.03 (release 29) ?s3 = (?s4, [Write 1 29 0, Syn])"
    by (simp add: ctrl_d_running_eq init_def engine_defs)
  have p5: "process_event 1000.5 (press 29) ?s4 = (?s5, [Write 1 29 1, Syn])"
    by (simp add: ctrl_d_running_eq init_def engine_defs)
  have p5': "process_event 1000.04 (press 29) ?s4 = (?s5, [Write 1 29 1, Syn])"
    by (simp add: ctrl_d_running_eq init_def engine_defs)
  have p6: "process_event 1000.51 (press 32) ?s5 = (?s6, [PressCallback ''ctrl+d_0''])"
    by (simp add: ctrl_d_running_eq init_def engine_defs insert_commute)
  have p6': "process_event 1000.05 (press 32) ?s5 = (?s6', [])"
    by (simp add: ctrl_d_running_eq init_def engine_defs insert_commute)
  have r0: "\<And>s. run_events [] s = (s, [])" by simp
  note slow = run_events_step[OF p1 run_events_step[OF p2 run_events_step[OF p3
        run_events_step[OF p4 run_events_step[OF p5 run_events_step[OF p6 r0]]]]]]
  note fast = run_events_step[OF p1 run_events_step[OF p2 run_events_step[OF p3
        run_events_step[OF p4 run_events_step[OF p5' run_events_step[OF p6' r0]]]]]]
  show "length (filter (\<lambda>x. x = PressCallback ''ctrl+d_0'')
      (snd (run_events ctrl_d_twice_slow ctrl_d_running))) = 2"
    unfolding ctrl_d_twice_slow_def slow by simp
  show "length (filter (\<lambda>x. x = PressCallback ''ctrl+d_0'')
      (snd (run_events ctrl_d_twice_fast ctrl_d_running))) = 1"
    unfolding ctrl_d_twice_fast_def fast by simp
qed

section \<open>Extra modifiers block a shortcut\<close>

lemma key_down_no_match:
  assumes "distinct (map shortcut_id (shortcuts s))" "sc \<in> set (shortcuts s)"
    and "shortcut_id sc \<notin> active_shortcuts s"
    and "\<not> is_match sc (insert c (pressed_keys s))"
  shows "shortcut_id sc \<notin> active_shortcuts (fst (process_event t (press c) s))"
    and "PressCallback (shortcut_id sc) \<notin> set (snd (process_event t (press c) s))"
    and "pressed_keys (fst (process_event t (press c) s)) = insert c (pressed_keys s)"
    and "shortcuts (fst (process_event t (press c) s)) = shortcuts s"
proof -
  have e: "ev_type (press c) = EV_KEY" "ev_value (press c) = key_down" "ev_code (press c) = c"
    by (simp_all add: press_def)
  show "shortcut_id sc \<notin> active_shortcuts (fst (process_event t (press c) s))"
    using key_down_active[OF assms(1,2) e(1,2), of t] assms(4) unfolding e(3) by simp
  show "PressCallback (shortcut_id sc) \<notin> set (snd (process_event t (press c) s))"
    using key_down_press_callback[OF assms(1,2) e(1,2), of t] assms(4) unfolding e(3) by simp
  show "pressed_keys (fst (process_event t (press c) s)) = insert c (pressed_keys s)"
    using key_down_state(1)[OF e(1,2), of t s] unfolding e(3) .
  show "shortcuts (fst (process_event t (press c) s)) = shortcuts s"
    using key_down_state(2)[OF e(1,2), of t s] .
qed

text \<open>Along key-downs that never make the pressed keys a valid match of a shortcut, the
  shortcut is not activated and its press callback is not dispatched.\<close>

lemma key_downs_without_match:
  assumes "distinct (map shortcut_id (shortcuts s))" "sc \<in> set (shortcuts s)"
    and "shortcut_id sc \<notin> active_shortcuts s"
    and "\<forall>k. 0 < k \<and> k \<le> length tcs \<longrightarrow>
           \<not> is_match sc (pressed_keys s \<union> set (map snd (take k tcs)))"
  shows "shortcut_id sc \<notin>
           active_shortcuts (fst (run_events (map (\<lambda>tc. (fst tc, press (snd tc))) tcs) s))
       \<and> PressCallback (shortcut_id sc) \<notin>
           set (snd (run_events (map (\<lambda>tc. (fst tc, press (snd tc))) tcs) s))"
  using assms
proof (induction tcs arbitrary: s)
  case Nil
  then show ?case by simp
next
  case (Cons tc tcs)
  let ?s1 = "fst (process_event (fst tc) (press (snd tc)) s)"
  from Cons.prems(4)[rule_format, of 1]
  have nm: "\<not> is_match sc (insert (snd tc) (pressed_keys s))" by simp
  note st = key_down_no_match[OF Cons.prems(1,2,3) nm, of "fst tc"]
  have rest: "\<forall>k. 0 < k \<and> k \<le> length tcs \<longrightarrow>
           \<not> is_match sc (pressed_keys ?s1 \<union> set (map snd (take k tcs)))"
  proof (intro allI impI)
    fix k assume k: "0 < k \<and> k \<le> length tcs"
    from Cons.prems(4)[rule_format, of "Suc k"] k
    show "\<not> is_match sc (pressed_keys ?s1 \<union> set (map snd (take k tcs)))"
      by (simp add: st(3))
  qed
  have d1: "distinct (map shortcut_id (shortcuts ?s1))" and m1: "sc \<in> set (shortcuts ?s1)"
    using Cons.prems(1,2) by (simp_all add: st(4))
  from Cons.IH[OF d1 m1 st(1) rest] st(2)
  show ?case by (simp add: Let_def)
qed

lemma take_three:
  "take n [a, b, c] =
     (if n = 0 then [] else if n = 1 then [a] else if n = 2 then [a, b] else [a, b, c])"
  by (auto simp add: take_Cons')

text \<open>
  Claim C4, as the code has it. From an engine with no key pressed in which the shortcut
  for \<^verbatim>\<open>ctrl+d\<close> is registered (ids distinct) and not active: when left ctrl, left shift and d
  go down with left shift before the later of ctrl and d, and no release in between, the
  shortcut is not active after any of the three key-downs and its press callback is never
  dispatched.
\<close>

theorem ctrl_d_not_activated_with_shift:
  assumes "distinct (map shortcut_id (shortcuts s))" and "sc \<in> set (shortcuts s)"
    and "target_keys sc = {KEY_LEFTCTRL, KEY_D}"
    and "pressed_keys s = {}" and "shortcut_id sc \<notin> active_shortcuts s"
    and "[c1, c2, c3] \<in> {[KEY_LEFTCTRL, KEY_LEFTSHIFT, KEY_D], [KEY_LEFTSHIFT, KEY_LEFTCTRL, KEY_D],
                         [KEY_LEFTSHIFT, KEY_D, KEY_LEFTCTRL], [KEY_D, KEY_LEFTSHIFT, KEY_LEFTCTRL]}"
  shows "\<forall>n. shortcut_id sc \<notin> active_shortcuts
                (fst (run_events (take n [(t1, press c1), (t2, press c2), (t3, press c3)]) s))
           \<and> PressCallback (shortcut_id sc) \<notin>
                set (snd (run_events (take n [(t1, press c1), (t2, press c2), (t3, press c3)]) s))"
proof
  fix n
  let ?tcs = "[(t1, c1), (t2, c2), (t3, c3)]"
  have nm: "\<not> is_match sc {c1}" "\<not> is_match sc {c1, c2}" "\<not> is_match sc {c1, c2, c3}"
    using assms(6)
    by (auto simp add: is_match_def assms(3) MODIFIER_KEYS_def KEY_LEFTCTRL_def KEY_D_def
          KEY_LEFTSHIFT_def)
  have pre: "\<forall>k. 0 < k \<and> k \<le> length (take n ?tcs) \<longrightarrow>
      \<not> is_match sc (pressed_keys s \<union> set (map snd (take k (take n ?tcs))))"
  proof (intro allI impI)
    fix k assume k: "0 < k \<and> k \<le> length (take n ?tcs)"
    then have "min k n = k" by simp
    then have "take k (take n ?tcs) = take k ?tcs" by simp
    moreover have "\<not> is_match sc (set (map snd (take k ?tcs)))"
      using k nm by (simp add: take_three insert_commute)
    ultimately show "\<not> is_match sc (pressed_keys s \<union> set (map snd (take k (take n ?tcs))))"
      by (simp add: assms(4))
  qed
  have ev: "take n [(t1, press c1), (t2, press c2), (t3, press c3)]
      = map (\<lambda>tc. (fst tc, press (snd tc))) (take n ?tcs)"
    unfolding take_three by simp
  show "shortcut_id sc \<notin> active_shortcuts
                (fst (run_events (take n [(t1, press c1), (t2, press c2), (t3, press c3)]) s))
           \<and> PressCallback (shortcut_id sc) \<notin>
                set (snd (run_events (take n [(t1, press c1), (t2, press c2), (t3, press c3)]) s))"
    unfolding ev by (rule key_downs_without_match[OF assms(1,2,5) pre])
qed

text \<open>Shift, then ctrl, then d on the running \<^verbatim>\<open>ctrl+d\<close> engine.\<close>

theorem ctrl_d_not_activated_with_shift_witness:
  "distinct (map shortcut_id (shortcuts ctrl_d_running))
   \<and> ctrl_d_shortcut \<in> set (shortcuts ctrl_d_running)
   \<and> target_keys ctrl_d_shortcut = {KEY_LEFTCTRL, KEY_D}
   \<and> pressed_keys ctrl_d_running = {}
   \<and> ''ctrl+d_0'' \<notin> active_shortcuts ctrl_d_running
   \<and> ''ctrl+d_0'' \<notin> active_shortcuts (fst (run_events
         [(1000, press KEY_LEFTSHIFT), (1000.2, press KEY_LEFTCTRL), (1000.4, press KEY_D)]
         ctrl_d_running))
   \<and> PressCallback ''ctrl+d_0'' \<notin> set (snd (run_events
         [(1000, press KEY_LEFTSHIFT), (1000.2, press KEY_LEFTCTRL), (1000.4, press KEY_D)]
         ctrl_d_running))"
proof -
  have h: "distinct (map shortcut_id (shortcuts ctrl_d_running))"
    "ctrl_d_shortcut \<in> set (shortcuts ctrl_d_running)"
    "target_keys ctrl_d_shortcut = {KEY_LEFTCTRL, KEY_D}"
    "pressed_keys ctrl_d_running = {}"
    "shortcut_id ctrl_d_shortcut \<notin> active_shortcuts ctrl_d_running"
    by (simp_all add: ctrl_d_running_eq ctrl_d_shortcut_def init_def KEY_LEFTCTRL_def KEY_D_def)
  have o: "[KEY_LEFTSHIFT, KEY_LEFTCTRL, KEY_D] \<in>
      {[KEY_LEFTCTRL, KEY_LEFTSHIFT, KEY_D], [KEY_LEFTSHIFT, KEY_LEFTCTRL, KEY_D],
       [KEY_LEFTSHIFT, KEY_D, KEY_LEFTCTRL], [KEY_D, KEY_LEFTSHIFT, KEY_LEFTCTRL]}"
    by simp
  have i: "shortcut_id ctrl_d_shortcut = ''ctrl+d_0''" by (simp add: ctrl_d_shortcut_def)
  note c = ctrl_d_not_activated_with_shift[OF h o, of 1000 "1000.2" "1000.4", THEN spec, of 3,
      unfolded i]
  have t: "take 3 [(1000::real, press KEY_LEFTSHIFT), (1000.2, press KEY_LEFTCTRL), (1000.4, press KEY_D)]
      = [(1000, press KEY_LEFTSHIFT), (1000.2, press KEY_LEFTCTRL), (1000.4, press KEY_D)]"
    by simp
  show ?thesis
    using h(1,2,3,4) h(5)[unfolded i] c[unfolded t, THEN conjunct1] c[unfolded t, THEN conjunct2]
    by (intro conjI)
qed

text \<open>The claim as written fails for the orders in which shift goes down last: after ctrl
  and d, before shift, \<^verbatim>\<open>ctrl+d\<close> is a full match with no extra modifier, so it is activated
  and its press callback is dispatched.\<close>

theorem ctrl_d_then_shift_counterexample:
  "''ctrl+d_0'' \<in> active_shortcuts (fst (run_events
       [(1000, press KEY_LEFTCTRL), (1000.2, press KEY_D)] ctrl_d_running))
   \<and> PressCallback ''ctrl+d_0'' \<in> set (snd (run_events
       [(1000, press KEY_LEFTCTRL), (1000.2, press KEY_D), (1000.4, press KEY_LEFTSHIFT)]
       ctrl_d_running))"
proof -
  let ?s1 = "ctrl_d_running\<lparr> pressed_keys := {29} \<rparr>"
  let ?s2 = "ctrl_d_running\<lparr> pressed_keys := {29, 32}, suppressed_keys := {32},
      active_shortcuts := {''ctrl+d_0''}, last_trigger_times := [''ctrl+d_0'' \<mapsto> 1000.2] \<rparr>"
  let ?s3 = "ctrl_d_running\<lparr> pressed_keys := {29, 32, 42}, suppressed_keys := {32},
      active_shortcuts := {}, last_trigger_times := [''ctrl+d_0'' \<mapsto> 1000.2] \<rparr>"
  have p1: "process_event 1000 (press KEY_LEFTCTRL) ctrl_d_running = (?s1, [Write 1 29 1, Syn])"
    by (simp add: ctrl_d_running_eq init_def engine_defs)
  have p2: "process_event 1000.2 (press KEY_D) ?s1 = (?s2, [PressCallback ''ctrl+d_0''])"
    by (simp add: ctrl_d_running_eq init_def engine_defs insert_commute)
  have p3: "process_event 1000.4 (press KEY_LEFTSHIFT) ?s2 = (?s3, [Write 1 42 1, Syn])"
    by (simp add: ctrl_d_running_eq init_def engine_defs insert_commute)
  have r0: "\<And>s. run_events [] s = (s, [])" by simp
  note two = run_events_step[OF p1 run_events_step[OF p2 r0]]
  note three = run_events_step[OF p1 run_events_step[OF p2 run_events_step[OF p3 r0]]]
  show ?thesis unfolding two three by simp
qed

section \<open>Shortcut ids are distinct\<close>

lemma digit_char_inj:
  "a < 10 \<Longrightarrow> b < 10 \<Longrightarrow> digit_char a = digit_char b \<Longrightarrow> a = b"
proof -
  assume a: "a < 10" and b: "b < 10" and e: "digit_char a = digit_char b"
  have d: "distinct ''0123456789''" by simp
  from a b have "a < length ''0123456789''" "b < length ''0123456789''" by simp_all
  with d e show "a = b" unfolding digit_char_def by (simp only: nth_eq_iff_index_eq)
qed

lemma digit_char_not_underscore: "d < 10 \<Longrightarrow> digit_char d \<noteq> CHR ''_''"
proof -
  assume "d < 10"
  then have "d < length ''0123456789''" by simp
  then have "digit_char d \<in> set ''0123456789''" unfolding digit_char_def by (rule nth_mem)
  then show ?thesis by auto
qed

lemma str_nat_unfold:
  "str_nat n = (if n < 10 then [digit_char n] else str_nat (n div 10) @ [digit_char (n mod 10)])"
  by (rule str_nat.simps)

lemma str_nat_no_underscore: "CHR ''_'' \<notin> set (str_nat n)"
proof (induction n rule: str_nat.induct)
  case (1 n)
  show ?case
  proof (cases "n < 10")
    case True
    then show ?thesis
      using digit_char_not_underscore[of n] by (subst str_nat_unfold) auto
  next
    case False
    then show ?thesis
      using 1 digit_char_not_underscore[of "n mod 10"] by (subst str_nat_unfold) auto
  qed
qed

lemma str_nat_not_empty: "str_nat n \<noteq> []"
  by (subst str_nat_unfold) simp

lemma str_nat_inj: "str_nat n = str_nat m \<Longrightarrow> n = m"
proof (induction n arbitrary: m rule: str_nat.induct)
  case (1 n)
  show ?case
  proof (cases "n < 10")
    case True
    note n = True
    show ?thesis
    proof (cases "m < 10")
      case True
      with n 1(2) show ?thesis
        using digit_char_inj[of n m]
        by (subst (asm) str_nat_unfold, subst (asm) (2) str_nat_unfold) simp
    next
      case False
      have "str_nat m = str_nat (m div 10) @ [digit_char (m mod 10)]"
        using False by (subst str_nat_unfold) simp
      moreover have "str_nat n = [digit_char n]"
        using n by (subst str_nat_unfold) simp
      ultimately show ?thesis using 1(2) str_nat_not_empty[of "m div 10"] by simp
    qed
  next
    case False
    note n = False
    have en: "str_nat n = str_nat (n div 10) @ [digit_char (n mod 10)]"
      using n by (subst str_nat_unfold) simp
    show ?thesis
    proof (cases "m < 10")
      case True
      then have "str_nat m = [digit_char m]" by (subst str_nat_unfold) simp
      with en 1(2) str_nat_not_empty[of "n div 10"] show ?thesis by simp
    next
      case False
      have em: "str_nat m = str_nat (m div 10) @ [digit_char (m mod 10)]"
        using False by (subst str_nat_unfold) simp
      from en em 1(2) have a: "str_nat (n div 10) = str_nat (m div 10)"
        and b: "digit_char (n mod 10) = digit_char (m mod 10)" by simp_all
      from 1(1)[OF n a] have "n div 10 = m div 10" .
      moreover from b have "n mod 10 = m mod 10"
        using digit_char_inj[of "n mod 10" "m mod 10"] by simp
      ultimately show ?thesis by (metis div_mult_mod_eq)
    qed
  qed
qed

lemma suffix_after_separator:
  assumes "u \<notin> set d1" "u \<notin> set d2" "a @ u # d1 = b @ u # d2"
  shows "d1 = d2"
proof -
  have "\<And>x d. u \<notin> set d \<Longrightarrow> takeWhile (\<lambda>c. c \<noteq> u) (rev (x @ u # d)) = rev d"
    by (auto simp add: takeWhile_tail)
  from this[OF assms(1), of a] this[OF assms(2), of b] assms(3)
  have "rev d1 = rev d2" by simp
  then show ?thesis by simp
qed

lemma ids_indexed_init: "ids_indexed (init device_path grab)"
  by (simp add: ids_indexed_def init_def)

lemma ids_indexed_add_shortcut:
  assumes "ids_indexed s"
  shows "ids_indexed (snd (add_shortcut ecodes key_string cb release_cb s))"
proof (cases "parse_key_combination ecodes key_string")
  case None
  then show ?thesis using assms by (simp add: add_shortcut_def)
next
  case (Some target)
  show ?thesis
  proof (cases "target = {}")
    case True
    then show ?thesis using assms Some by (simp add: add_shortcut_def)
  next
    case False
    have sh: "shortcuts (snd (add_shortcut ecodes key_string cb release_cb s)) =
       shortcuts s @ [\<lparr> shortcut_id = key_string @ ''_'' @ str_nat (length (shortcuts s)),
          target_keys = target, callback = cb, release_callback = release_cb \<rparr>]"
      using Some False by (simp add: add_shortcut_def Let_def)
    show ?thesis
      unfolding ids_indexed_def sh
    proof (intro allI impI)
      fix i
      assume "i < length (shortcuts s @ [\<lparr> shortcut_id = key_string @ ''_'' @ str_nat (length (shortcuts s)),
          target_keys = target, callback = cb, release_callback = release_cb \<rparr>])"
      then have "i < length (shortcuts s) \<or> i = length (shortcuts s)" by auto
      then show "\<exists>ks. shortcut_id ((shortcuts s @ [\<lparr> shortcut_id = key_string @ ''_'' @ str_nat (length (shortcuts s)),
          target_keys = target, callback = cb, release_callback = release_cb \<rparr>]) ! i) = ks @ ''_'' @ str_nat i"
      proof
        assume "i < length (shortcuts s)"
        then show ?thesis using assms by (simp add: ids_indexed_def nth_append)
      next
        assume "i = length (shortcuts s)"
        then show ?thesis by (simp)
      qed
    qed
  qed
qed

lemma ids_indexed_distinct:
  assumes "ids_indexed s"
  shows "distinct (map shortcut_id (shortcuts s))"
  unfolding distinct_conv_nth
proof (intro allI impI)
  fix i j
  assume i: "i < length (map shortcut_id (shortcuts s))"
    and j: "j < length (map shortcut_id (shortcuts s))" and ne: "i \<noteq> j"
  from i have i': "i < length (shortcuts s)" by simp
  from j have j': "j < length (shortcuts s)" by simp
  from assms[unfolded ids_indexed_def, rule_format, OF i']
  obtain ki where ki: "shortcut_id (shortcuts s ! i) = ki @ ''_'' @ str_nat i" ..
  from assms[unfolded ids_indexed_def, rule_format, OF j']
  obtain kj where kj: "shortcut_id (shortcuts s ! j) = kj @ ''_'' @ str_nat j" ..
  show "map shortcut_id (shortcuts s) ! i \<noteq> map shortcut_id (shortcuts s) ! j"
  proof
    assume eq: "map shortcut_id (shortcuts s) ! i = map shortcut_id (shortcuts s) ! j"
    have ni: "map shortcut_id (shortcuts s) ! i = shortcut_id (shortcuts s ! i)"
      using i by (simp only: nth_map length_map)
    have nj: "map shortcut_id (shortcuts s) ! j = shortcut_id (shortcuts s ! j)"
      using j by (simp only: nth_map length_map)
    from eq have "ki @ ''_'' @ str_nat i = kj @ ''_'' @ str_nat j"
      unfolding ni nj ki kj .
    then have "ki @ CHR ''_'' # str_nat i = kj @ CHR ''_'' # str_nat j"
      by (simp only: append_Cons append_Nil)
    from suffix_after_separator[OF str_nat_no_underscore str_nat_no_underscore this]
    have "i = j" by (rule str_nat_inj)
    with ne show False by simp
  qed
qed

text \<open>Every registry built by calls of \<^verbatim>\<open>add_shortcut\<close> on a new engine has distinct ids.\<close>

lemma registered_ids_distinct:
  "distinct (map shortcut_id (shortcuts (register_all ecodes rs (init device_path grab))))"
proof -
  have "ids_indexed s \<Longrightarrow> ids_indexed (register_all ecodes rs s)" for s
    by (induction rs arbitrary: s) (simp_all add: ids_indexed_add_shortcut)
  from this[OF ids_indexed_init] show ?thesis by (rule ids_indexed_distinct)
qed

end
